theory Spec2Isabelle
  imports Main
begin

text \<open>
  A model of \<^verbatim>\<open>twitch-recorder.py\<close>: the recorder polls the streams endpoint for a
  channel, records a live stream with streamlink under a file lock, and hands the file to
  ffmpeg. Methods are functions on an explicit state; what the network, the clock, the
  lock file and the child processes answer is an argument; exceptions are values.
\<close>

section \<open>Python strings\<close>

text \<open>
  A Python \<^verbatim>\<open>str\<close> is a sequence of Unicode code points, so a string is a list of
  naturals. \<open>str\<close> reads an ASCII literal.
\<close>

type_synonym pystr = "nat list"

definition str :: "string \<Rightarrow> pystr" where
  "str s = map of_char s"

text \<open>
  \<^verbatim>\<open>str.isalnum\<close> follows the Unicode character database. The code points below 256 are
  written out (digits, ASCII letters, and the Latin-1 letters and numeric signs); the
  database beyond them is not part of the repository and is the parameter \<open>ucd\<close>.
\<close>

definition isalnum :: "(nat \<Rightarrow> bool) \<Rightarrow> nat \<Rightarrow> bool" where
  "isalnum ucd c =
     (if c < 256 then
        (48 \<le> c \<and> c \<le> 57) \<or> (65 \<le> c \<and> c \<le> 90) \<or> (97 \<le> c \<and> c \<le> 122) \<or>
        c = 170 \<or> c = 178 \<or> c = 179 \<or> c = 181 \<or> c = 185 \<or> c = 186 \<or>
        (188 \<le> c \<and> c \<le> 190) \<or> (192 \<le> c \<and> c \<le> 214) \<or>
        (216 \<le> c \<and> c \<le> 246) \<or> (248 \<le> c \<and> c \<le> 255)
      else ucd c)"

text \<open>A table that marks no code point from 256 on, for evaluating Latin-1 inputs.\<close>

definition latin1_only :: "nat \<Rightarrow> bool" where
  "latin1_only c = False"

text \<open>\<^verbatim>\<open>str.isspace\<close>: the complete list of Python's whitespace code points.\<close>

definition isspace :: "nat \<Rightarrow> bool" where
  "isspace c =
     ((9 \<le> c \<and> c \<le> 13) \<or> (28 \<le> c \<and> c \<le> 32) \<or> c = 133 \<or> c = 160 \<or> c = 5760 \<or>
      (8192 \<le> c \<and> c \<le> 8202) \<or> c = 8232 \<or> c = 8233 \<or> c = 8239 \<or> c = 8287 \<or>
      c = 12288)"

definition rstrip :: "pystr \<Rightarrow> pystr" where
  "rstrip s = rev (dropWhile isspace (rev s))"

section \<open>The recording's file name\<close>

text \<open>
  \<^verbatim>\<open>datetime.datetime.now().strftime("%Y-%m-%d %Hh%Mm%Ss")\<close>, as the C library formats
  it on Linux: the year in full, without padding, the other fields on two digits,
  zero-padded.
\<close>

record datetime =
  year :: nat
  month :: nat
  day :: nat
  hour :: nat
  minute :: nat
  second :: nat

fun decimal :: "nat \<Rightarrow> pystr" where
  "decimal n = (if n < 10 then [48 + n] else decimal (n div 10) @ [48 + n mod 10])"

declare decimal.simps [simp del]

definition zfill :: "nat \<Rightarrow> pystr \<Rightarrow> pystr" where
  "zfill w s = replicate (w - length s) 48 @ s"

definition strftime :: "datetime \<Rightarrow> pystr" where
  "strftime t =
     decimal (year t) @ str ''-'' @ zfill 2 (decimal (month t)) @ str ''-'' @
     zfill 2 (decimal (day t)) @ str '' '' @ zfill 2 (decimal (hour t)) @ str ''h'' @
     zfill 2 (decimal (minute t)) @ str ''m'' @ zfill 2 (decimal (second t)) @ str ''s''"

text \<open>
  Lines 170-174 of \<^verbatim>\<open>check\<close>: the name is composed from the user name, the local time
  and the stream's title, then every character that is neither alphanumeric nor one of
  space, hyphen, underscore and period is dropped.
\<close>

definition compose_filename :: "pystr \<Rightarrow> datetime \<Rightarrow> pystr \<Rightarrow> pystr" where
  "compose_filename user t ttl =
     user @ str '' - '' @ strftime t @ str '' - '' @ ttl @ str ''.mp4''"

definition clean_filename :: "(nat \<Rightarrow> bool) \<Rightarrow> pystr \<Rightarrow> pystr" where
  "clean_filename ucd filename =
     filter (\<lambda>x. isalnum ucd x \<or> x \<in> set (str '' -_.'')) filename"

section \<open>The channel list\<close>

text \<open>
  Lines 247-248 of \<^verbatim>\<open>main\<close>: the user names are the lines of the list file, trailing
  whitespace stripped, that keep more than one character. The argument is the list of
  lines that iterating over the file yields.
\<close>

definition twitch_usernames :: "pystr list \<Rightarrow> pystr list" where
  "twitch_usernames f = map rstrip (filter (\<lambda>line. length (rstrip line) > 1) f)"


section \<open>The status query\<close>

datatype TwitchResponseStatus = ONLINE | OFFLINE | NOT_FOUND | UNAUTHORIZED | ERROR

datatype exn =
  AttributeError | KeyError | TypeError | ValueError | OverflowError | FileNotFoundError | HTTPError

text \<open>
  The decoded reply of the streams endpoint. \<open>Null\<close> is Python's \<^verbatim>\<open>None\<close>; an object
  carries its \<^verbatim>\<open>"data"\<close> member when it has one, a list of channel objects; of a channel
  the code reads \<^verbatim>\<open>channel.get("title")\<close>, which is \<^verbatim>\<open>None\<close> when the title is missing.
\<close>

record channel =
  title :: "pystr option"

datatype info = Null | Object "channel list option"

text \<open>
  What \<^verbatim>\<open>requests.get\<close> comes back with: no response at all (a timeout or a connection
  error, raised as a \<^verbatim>\<open>RequestException\<close> whose \<^verbatim>\<open>response\<close> is \<^verbatim>\<open>None\<close>), or a response
  with its status code and decoded body. Bodies are taken to be JSON that decodes, with
  a list of objects under \<^verbatim>\<open>"data"\<close> when that member is there.
\<close>

datatype http_outcome = No_Response | Response nat info

text \<open>
  The two facts of the \<^verbatim>\<open>requests\<close> library that \<^verbatim>\<open>check_user\<close> relies on:
  \<^verbatim>\<open>Response.raise_for_status\<close> raises \<^verbatim>\<open>HTTPError(response=self)\<close> exactly for the codes
  from 400 to 599, and the truth value of a response, \<^verbatim>\<open>Response.__bool__\<close>, is its
  \<^verbatim>\<open>ok\<close> property: true exactly when \<^verbatim>\<open>raise_for_status\<close> does not raise.
\<close>

definition raise_for_status :: "nat \<Rightarrow> bool" where
  "raise_for_status status_code = (400 \<le> status_code \<and> status_code < 600)"

definition response_bool :: "nat \<Rightarrow> bool" where
  "response_bool status_code = (\<not> raise_for_status status_code)"

text \<open>
  \<^verbatim>\<open>check_user\<close> (lines 123-141). Only \<^verbatim>\<open>RequestException\<close> is caught: a reply object
  without \<^verbatim>\<open>"data"\<close> raises \<^verbatim>\<open>KeyError\<close> to the caller. In the handler the status is still
  \<open>ERROR\<close> and \<^verbatim>\<open>info\<close> still \<^verbatim>\<open>None\<close>; the two status codes are looked at only under
  \<^verbatim>\<open>if e.response:\<close>.
\<close>

definition check_user :: "http_outcome \<Rightarrow> exn + (TwitchResponseStatus \<times> info)" where
  "check_user r =
     (case r of
        No_Response \<Rightarrow> Inr (ERROR, Null)
      | Response status_code body \<Rightarrow>
          if raise_for_status status_code then
            (let status = ERROR;
                 status = (if response_bool status_code \<and> status_code = 401
                           then UNAUTHORIZED else status);
                 status = (if response_bool status_code \<and> status_code = 404
                           then NOT_FOUND else status)
             in Inr (status, Null))
          else
            (case body of
               Null \<Rightarrow> Inr (OFFLINE, Null)
             | Object None \<Rightarrow> Inl KeyError
             | Object (Some data) \<Rightarrow>
                 if data = [] then Inr (OFFLINE, body) else Inr (ONLINE, body)))"

section \<open>The recorder and the world it acts on\<close>

type_synonym bytes = "nat list"

datatype level = DEBUG | INFO | WARNING | ERROR_LEVEL

datatype event =
    Lock_Acquire pystr
  | Lock_Timeout pystr
  | Lock_Release pystr
  | Poll
  | Sleep int
  | Log level string
  | Fetch_Token
  | Makedirs pystr
  | Streamlink pystr
  | Ffmpeg pystr pystr
  | Move pystr pystr
  | Remove pystr

text \<open>The attributes of a \<^verbatim>\<open>TwitchRecorder\<close>; \<open>logger\<close> tells whether one is attached.\<close>

record TwitchRecorder =
  ffmpeg_path :: pystr
  disable_ffmpeg :: bool
  refresh :: int
  root_path :: pystr
  username :: pystr
  quality :: pystr
  access_token :: pystr
  logger :: bool

text \<open>
  The state threaded through the methods: the object, the regular files on disk with
  their contents, the directories made so far, and the effects in the order they
  happened.
\<close>

record state =
  self :: TwitchRecorder
  files :: "(pystr \<times> bytes) list"
  dirs :: "pystr list"
  trace :: "event list"

type_synonym outcome = "exn option \<times> state"

definition and_then :: "outcome \<Rightarrow> (state \<Rightarrow> outcome) \<Rightarrow> outcome" where
  "and_then r f = (case r of (None, st) \<Rightarrow> f st | (Some e, st) \<Rightarrow> (Some e, st))"

definition emit :: "event \<Rightarrow> state \<Rightarrow> state" where
  "emit e st = st\<lparr>trace := trace st @ [e]\<rparr>"

text \<open>A call of the \<^verbatim>\<open>logging\<close> module, which always succeeds.\<close>

definition logging :: "level \<Rightarrow> string \<Rightarrow> state \<Rightarrow> state" where
  "logging l msg st = emit (Log l msg) st"

text \<open>A call on \<^verbatim>\<open>self.logger\<close>: \<^verbatim>\<open>AttributeError\<close> when the logger is \<^verbatim>\<open>None\<close>.\<close>

definition self_logger :: "level \<Rightarrow> string \<Rightarrow> state \<Rightarrow> outcome" where
  "self_logger l msg st =
     (if logger (self st) then (None, emit (Log l msg) st) else (Some AttributeError, st))"

text \<open>
  \<^verbatim>\<open>time.sleep\<close>: \<^verbatim>\<open>ValueError\<close> on a negative length, and a length beyond what the
  platform takes is refused: the conversion to a 64-bit timestamp in nanoseconds raises
  \<^verbatim>\<open>OverflowError\<close> above 9223372036 seconds, and the system call refuses a length that
  carries the clock past that bound (the model has the one name for both). \<open>longest\<close> is
  the longest sleep accepted at the moment of the call.
\<close>

definition sleep :: "int \<Rightarrow> int \<Rightarrow> state \<Rightarrow> outcome" where
  "sleep longest secs st =
     (if secs < 0 then (Some ValueError, st)
      else if longest < secs then (Some OverflowError, st)
      else (None, emit (Sleep secs) st))"

subsection \<open>Paths and files (POSIX)\<close>

definition path_join :: "pystr \<Rightarrow> pystr \<Rightarrow> pystr" where
  "path_join a b =
     (if b \<noteq> [] \<and> hd b = 47 then b
      else if a = [] \<or> last a = 47 then a @ b
      else a @ [47] @ b)"

definition exists :: "pystr \<Rightarrow> state \<Rightarrow> bool" where
  "exists p st = (map_of (files st) p \<noteq> None)"

definition delete_file :: "pystr \<Rightarrow> (pystr \<times> bytes) list \<Rightarrow> (pystr \<times> bytes) list" where
  "delete_file p fs = filter (\<lambda>entry. fst entry \<noteq> p) fs"

definition write_file :: "pystr \<Rightarrow> bytes \<Rightarrow> state \<Rightarrow> state" where
  "write_file p b st = st\<lparr>files := (p, b) # delete_file p (files st)\<rparr>"

definition os_remove :: "pystr \<Rightarrow> state \<Rightarrow> outcome" where
  "os_remove p st =
     (if exists p st then (None, emit (Remove p) (st\<lparr>files := delete_file p (files st)\<rparr>))
      else (Some FileNotFoundError, st))"

definition shutil_move :: "pystr \<Rightarrow> pystr \<Rightarrow> state \<Rightarrow> outcome" where
  "shutil_move src dst st =
     (case map_of (files st) src of
        None \<Rightarrow> (Some FileNotFoundError, st)
      | Some b \<Rightarrow>
          (None, emit (Move src dst) (write_file dst b (st\<lparr>files := delete_file src (files st)\<rparr>))))"

definition makedirs_if_missing :: "pystr \<Rightarrow> state \<Rightarrow> state" where
  "makedirs_if_missing p st =
     (if p \<in> set (dirs st) then st else emit (Makedirs p) (st\<lparr>dirs := p # dirs st\<rparr>))"

text \<open>The name of a regular file that lies directly in directory \<open>d\<close>.\<close>

definition child_name :: "pystr \<Rightarrow> pystr \<Rightarrow> pystr option" where
  "child_name d p =
     (let d' = (if d \<noteq> [] \<and> last d = 47 then d else d @ [47]);
          f = drop (length d') p
      in if take (length d') p = d' \<and> f \<noteq> [] \<and> 47 \<notin> set f then Some f else None)"

definition listdir_files :: "pystr \<Rightarrow> state \<Rightarrow> pystr list" where
  "listdir_files d st = List.map_filter (child_name d) (map fst (files st))"


section \<open>Repairing a recorded file\<close>

text \<open>
  What a child process launched through \<^verbatim>\<open>subprocess\<close> does: it cannot be started (the
  call raises), or it runs, exits with a code and has written a file at its output path
  or not. The exit code is read by neither caller.
\<close>

datatype process_outcome = Launch_Failure | Exited int "bytes option"

text \<open>
  \<^verbatim>\<open>ffmpeg_copy_and_fix_errors\<close> (lines 114-121): \<^verbatim>\<open>os.remove\<close> follows the call inside the
  \<^verbatim>\<open>try\<close>, and every exception is caught and logged.
\<close>

definition ffmpeg_copy_and_fix_errors ::
  "process_outcome \<Rightarrow> pystr \<Rightarrow> pystr \<Rightarrow> state \<Rightarrow> state" where
  "ffmpeg_copy_and_fix_errors ff recorded_filename processed_filename st =
     (let st = emit (Ffmpeg recorded_filename processed_filename) st
      in case ff of
           Launch_Failure \<Rightarrow> logging ERROR_LEVEL ''%s'' st
         | Exited code out \<Rightarrow>
             (let st = (case out of None \<Rightarrow> st | Some b \<Rightarrow> write_file processed_filename b st)
              in case os_remove recorded_filename st of
                   (None, st) \<Rightarrow> st
                 | (Some e, st) \<Rightarrow> logging ERROR_LEVEL ''%s'' st))"

text \<open>\<^verbatim>\<open>process_recorded_file\<close> (lines 106-112).\<close>

definition process_recorded_file ::
  "process_outcome \<Rightarrow> pystr \<Rightarrow> pystr \<Rightarrow> state \<Rightarrow> outcome" where
  "process_recorded_file ff recorded_filename processed_filename st =
     (if disable_ffmpeg (self st) then
        shutil_move recorded_filename processed_filename (logging INFO ''moving: %s'' st)
      else
        (None, ffmpeg_copy_and_fix_errors ff recorded_filename processed_filename
                 (logging INFO ''fixing %s'' st)))"

section \<open>One check\<close>

text \<open>
  What the outside world answers during one call of \<^verbatim>\<open>check\<close> and the sleep that
  follows it in the loop: whether the lock file is free within the timeout, the reply to
  the status query, the reply of the token endpoint (\<open>None\<close> when
  \<^verbatim>\<open>fetch_access_token\<close> raises), the local time, what the two child processes do, and
  the longest sleep the platform accepts.
\<close>

record world =
  lock_free :: bool
  http :: http_outcome
  token_reply :: "pystr option"
  now :: datetime
  capture :: process_outcome
  ffmpeg :: process_outcome
  max_sleep :: int

definition fetch_access_token :: "world \<Rightarrow> state \<Rightarrow> outcome" where
  "fetch_access_token w st =
     (let st = emit Fetch_Token st
      in case token_reply w of
           None \<Rightarrow> (Some HTTPError, st)
         | Some token \<Rightarrow> (None, st\<lparr>self := (self st)\<lparr>access_token := token\<rparr>\<rparr>))"

text \<open>\<^verbatim>\<open>subprocess.run(["streamlink", ...])\<close> (lines 181-185); nothing catches its failure.\<close>

definition run_streamlink :: "process_outcome \<Rightarrow> pystr \<Rightarrow> state \<Rightarrow> outcome" where
  "run_streamlink cap recorded_filename st =
     (let st = emit (Streamlink recorded_filename) st
      in case cap of
           Launch_Failure \<Rightarrow> (Some FileNotFoundError, st)
         | Exited code out \<Rightarrow>
             (None, case out of None \<Rightarrow> st | Some b \<Rightarrow> write_file recorded_filename b st))"

text \<open>
  The \<open>ONLINE\<close> branch of \<^verbatim>\<open>check\<close> (lines 166-193). \<^verbatim>\<open>info["data"]\<close> needs an object with
  that member, \<^verbatim>\<open>channel.get\<close> a channel, and the concatenation a title that is a string.
\<close>

definition record_stream ::
  "(nat \<Rightarrow> bool) \<Rightarrow> world \<Rightarrow> pystr \<Rightarrow> pystr \<Rightarrow> info \<Rightarrow> state \<Rightarrow> outcome" where
  "record_stream ucd w recorded_path processed_path info st =
     (let st = logging INFO ''%s online, stream recording in session'' st
      in case info of
           Null \<Rightarrow> (Some TypeError, st)
         | Object None \<Rightarrow> (Some KeyError, st)
         | Object (Some channels) \<Rightarrow>
             (case channels of
                [] \<Rightarrow> (Some AttributeError, st)
              | channel # _ \<Rightarrow>
                  (case title channel of
                     None \<Rightarrow> (Some TypeError, st)
                   | Some ttl \<Rightarrow>
                       (let filename = clean_filename ucd
                              (compose_filename (username (self st)) (now w) ttl);
                            recorded_filename = path_join recorded_path filename;
                            processed_filename = path_join processed_path filename
                        in and_then (self_logger INFO ''Recording user %s'' st) (\<lambda>st.
                           and_then (run_streamlink (capture w) recorded_filename st) (\<lambda>st.
                           and_then
                             (let st = logging INFO
                                    ''recording stream is done, processing video file'' st
                              in if exists recorded_filename st then
                                   process_recorded_file (ffmpeg w) recorded_filename
                                     processed_filename st
                                 else (None, logging INFO ''skip fixing, file not found'' st))
                             (\<lambda>st. (None, logging INFO
                                    ''processing is done, going back to checking...'' st))))))))"

text \<open>The chain of \<^verbatim>\<open>if\<close>/\<^verbatim>\<open>elif\<close> on the status (lines 152-193), in the source's order.\<close>

definition handle_status ::
  "(nat \<Rightarrow> bool) \<Rightarrow> world \<Rightarrow> pystr \<Rightarrow> pystr \<Rightarrow> TwitchResponseStatus \<Rightarrow> info \<Rightarrow> state \<Rightarrow> outcome"
  where
  "handle_status ucd w recorded_path processed_path status info st =
     (if status = NOT_FOUND then
        sleep (max_sleep w) (refresh (self st))
          (logging ERROR_LEVEL ''username not found, invalid username or typo'' st)
      else if status = ERROR then
        sleep (max_sleep w) 300
          (logging ERROR_LEVEL ''%s unexpected error. will try again in 5 minutes'' st)
      else if status = OFFLINE then
        sleep (max_sleep w) (refresh (self st))
          (logging INFO ''%s currently offline, checking again in %s seconds'' st)
      else if status = UNAUTHORIZED then
        fetch_access_token w
          (logging WARNING ''unauthorized, will attempt to log back in immediately'' st)
      else if status = ONLINE then
        record_stream ucd w recorded_path processed_path info st
      else (None, st))"

text \<open>
  \<^verbatim>\<open>check\<close> (lines 148-195): the lock is taken first and held around the poll and all that
  follows; it is released on every way out of the block, and only the lock's timeout is
  caught. Taking the lock opens the lock file, creating it empty, and releasing it leaves
  the file on disk. A busy lock is one whose file a holder has made already: the attempt
  changes nothing on disk.
\<close>

definition check :: "(nat \<Rightarrow> bool) \<Rightarrow> world \<Rightarrow> pystr \<Rightarrow> pystr \<Rightarrow> state \<Rightarrow> outcome" where
  "check ucd w recorded_path processed_path st =
     (let lock_file = recorded_path @ str ''.lock''
      in if lock_free w then
           (let st = emit Poll (emit (Lock_Acquire lock_file) (write_file lock_file [] st));
                (raised, st) =
                  (case check_user (http w) of
                     Inl e \<Rightarrow> (Some e, st)
                   | Inr (status, info) \<Rightarrow>
                       handle_status ucd w recorded_path processed_path status info st)
            in (raised, emit (Lock_Release lock_file) st))
         else (None, emit (Lock_Timeout lock_file) st))"

text \<open>
  \<^verbatim>\<open>loop_check\<close> (lines 143-146) has no exit of its own. It is run against the worlds of
  its successive iterations; a result without an exception is the state after as many
  iterations as there are worlds, with the loop still going.
\<close>

fun loop_check :: "(nat \<Rightarrow> bool) \<Rightarrow> world list \<Rightarrow> pystr \<Rightarrow> pystr \<Rightarrow> state \<Rightarrow> outcome" where
  "loop_check ucd [] recorded_path processed_path st = (None, st)"
| "loop_check ucd (w # ws) recorded_path processed_path st =
     (case check ucd w recorded_path processed_path st of
        (Some e, st) \<Rightarrow> (Some e, st)
      | (None, st) \<Rightarrow>
          (case sleep (max_sleep w) (refresh (self st)) st of
             (Some e, st) \<Rightarrow> (Some e, st)
           | (None, st) \<Rightarrow> loop_check ucd ws recorded_path processed_path st))"

section \<open>Running a recorder\<close>

text \<open>Lines 79-83 of \<^verbatim>\<open>run\<close>.\<close>

definition enforce_min_refresh :: "state \<Rightarrow> outcome" where
  "enforce_min_refresh st =
     (if refresh (self st) < 15 then
        and_then (self_logger WARNING ''check interval should not be lower than 15 seconds'' st)
          (\<lambda>st. self_logger INFO ''system set check interval to 15 seconds''
                   (st\<lparr>self := (self st)\<lparr>refresh := 15\<rparr>\<rparr>))
      else (None, st))"

text \<open>
  Lines 85-95 of \<^verbatim>\<open>run\<close>: the files left in the recording directory are processed in
  turn; the first exception ends the pass and is logged. \<open>prev\<close> tells what ffmpeg does
  on each of them.
\<close>

fun process_files ::
  "(pystr \<Rightarrow> process_outcome) \<Rightarrow> pystr \<Rightarrow> pystr \<Rightarrow> pystr list \<Rightarrow> state \<Rightarrow> outcome" where
  "process_files prev recorded_path processed_path [] st = (None, st)"
| "process_files prev recorded_path processed_path (f # video_list) st =
     (let recorded_filename = path_join recorded_path f;
          processed_filename = path_join processed_path f
      in case process_recorded_file (prev recorded_filename) recorded_filename
                processed_filename st of
           (Some e, st) \<Rightarrow> (Some e, st)
         | (None, st) \<Rightarrow> process_files prev recorded_path processed_path video_list st)"

definition fix_previous ::
  "(pystr \<Rightarrow> process_outcome) \<Rightarrow> pystr \<Rightarrow> pystr \<Rightarrow> state \<Rightarrow> state" where
  "fix_previous prev recorded_path processed_path st =
     (let video_list = listdir_files recorded_path st
      in case and_then
                (if length video_list > 0
                 then self_logger INFO ''processing previously recorded files'' st
                 else (None, st))
                (process_files prev recorded_path processed_path video_list) of
           (None, st) \<Rightarrow> st
         | (Some e, st) \<Rightarrow> logging ERROR_LEVEL ''%s'' st)"

text \<open>
  \<^verbatim>\<open>run\<close> (lines 67-104). With \<open>once\<close> a single check is made, in the first world given;
  otherwise the loop runs against all of them.
\<close>

definition run ::
  "(nat \<Rightarrow> bool) \<Rightarrow> (pystr \<Rightarrow> process_outcome) \<Rightarrow> world list \<Rightarrow> bool \<Rightarrow> state \<Rightarrow> outcome" where
  "run ucd prev ws once st =
     (let recorded_path = path_join (path_join (root_path (self st)) (str ''recorded''))
                            (username (self st));
          processed_path = path_join (path_join (root_path (self st)) (str ''processed''))
                             (username (self st));
          st = makedirs_if_missing recorded_path st;
          st = makedirs_if_missing processed_path st
      in and_then (enforce_min_refresh st) (\<lambda>st.
           let st = fix_previous prev recorded_path processed_path st
           in if once then
                and_then (self_logger DEBUG ''checking for %s, recording with %s quality'' st)
                  (\<lambda>st. case ws of
                           [] \<Rightarrow> (None, st)
                         | w # _ \<Rightarrow> check ucd w recorded_path processed_path st)
              else
                loop_check ucd ws recorded_path processed_path
                  (logging INFO
                     ''checking for %s every %s seconds, recording with %s quality'' st)))"

section \<open>Multi-target mode\<close>

text \<open>
  The constructor as \<^verbatim>\<open>main\<close> calls it in its scheduling loop (line 249), with the user
  name, the logger and the cycle's token all given. \<open>root\<close> is \<^verbatim>\<open>config.root_path\<close>.
\<close>

definition new_recorder :: "pystr \<Rightarrow> pystr \<Rightarrow> pystr \<Rightarrow> TwitchRecorder" where
  "new_recorder root token user =
     \<lparr>ffmpeg_path = str ''ffmpeg'', disable_ffmpeg = False, refresh = 15, root_path = root,
      username = user, quality = str ''best'', access_token = token, logger = True\<rparr>"

text \<open>Lines 247-250: one recorder per user name, each submitted as \<^verbatim>\<open>run(True)\<close>.\<close>

definition recorders :: "pystr \<Rightarrow> pystr \<Rightarrow> pystr list \<Rightarrow> TwitchRecorder list" where
  "recorders root token f = map (new_recorder root token) (twitch_usernames f)"

text \<open>
  The scheduling loop of \<^verbatim>\<open>main\<close> (lines 234-252) keeps the futures of the units it has
  submitted in \<^verbatim>\<open>list_of_futures\<close>. A future is modelled by what its unit ended with: the
  exception it holds, if any. \<^verbatim>\<open>main\<close> never asks a future for its result, so the
  exception stays there.
\<close>

type_synonym future = "exn option"

definition num_workers :: nat where
  "num_workers = 4"

text \<open>
  Lines 240-242: while the list is longer than \<^verbatim>\<open>num_workers\<close>, the next future to
  complete is removed from it. Which one completes next is the world's: \<open>done\<close> gives, for
  each wait, its position in the list (taken modulo the length). When \<open>done\<close> runs out
  with the list still too long, the scheduler is left waiting.
\<close>

fun drain :: "nat list \<Rightarrow> 'a list \<Rightarrow> 'a list" where
  "drain [] list_of_futures = list_of_futures"
| "drain (i # done) list_of_futures =
     (if length list_of_futures > num_workers then
        drain done (take (i mod length list_of_futures) list_of_futures @
                    drop (Suc (i mod length list_of_futures)) list_of_futures)
      else list_of_futures)"

text \<open>
  Line 250: every recorder is submitted as \<^verbatim>\<open>run(True)\<close>. The units of a batch are run
  here one after the other, in the order of submission, on the disk the one before left;
  how the threads of the pool interleave them is not modelled. \<open>answers\<close> gives the world
  that the unit of each channel meets. An exception that leaves \<^verbatim>\<open>run\<close> goes into the
  unit's future.
\<close>

fun run_units ::
  "(nat \<Rightarrow> bool) \<Rightarrow> (pystr \<Rightarrow> process_outcome) \<Rightarrow> (pystr \<Rightarrow> world) \<Rightarrow>
   TwitchRecorder list \<Rightarrow> state \<Rightarrow> future list \<times> state" where
  "run_units ucd prev answers [] st = ([], st)"
| "run_units ucd prev answers (recorder # rest) st =
     (case run ucd prev [answers (username recorder)] True (st\<lparr>self := recorder\<rparr>) of
        (raised, st) \<Rightarrow>
          (case run_units ucd prev answers rest st of
             (new_futures, st) \<Rightarrow> (raised # new_futures, st)))"

text \<open>
  What one pass of the scheduling loop meets: the completions seen while it waits, the
  lines of \<^verbatim>\<open>streamers.txt\<close> (\<open>None\<close> when the file cannot be opened), the reply of the
  token endpoint to the scheduler's own request (line 246), and the worlds of the units.
\<close>

record cycle =
  completions :: "nat list"
  streamers :: "pystr list option"
  cycle_token :: "pystr option"
  answers_of :: "pystr \<Rightarrow> world"

text \<open>
  Where the scheduler stands: it has submitted a batch and goes on, it is still waiting
  for completions, or an exception has left \<^verbatim>\<open>main\<close>. Each comes with the list of futures
  and the state.
\<close>

datatype scheduler =
    Scheduling "future list" state
  | Waiting "future list" state
  | Aborted exn "future list" state

text \<open>One pass of the outer \<^verbatim>\<open>while True\<close> (lines 239-252).\<close>

definition schedule ::
  "(nat \<Rightarrow> bool) \<Rightarrow> (pystr \<Rightarrow> process_outcome) \<Rightarrow> pystr \<Rightarrow> cycle \<Rightarrow> future list \<Rightarrow> state \<Rightarrow>
   scheduler" where
  "schedule ucd prev root c list_of_futures st =
     (let list_of_futures = drain (completions c) list_of_futures
      in if length list_of_futures > num_workers then Waiting list_of_futures st
         else
           (case streamers c of
              None \<Rightarrow> Aborted FileNotFoundError list_of_futures st
            | Some f \<Rightarrow>
                (case cycle_token c of
                   None \<Rightarrow> Aborted HTTPError list_of_futures st
                 | Some token \<Rightarrow>
                     (case run_units ucd prev (answers_of c) (recorders root token f) st of
                        (new_futures, st) \<Rightarrow>
                          Scheduling (list_of_futures @ new_futures) st))))"

fun main_loop ::
  "(nat \<Rightarrow> bool) \<Rightarrow> (pystr \<Rightarrow> process_outcome) \<Rightarrow> pystr \<Rightarrow> cycle list \<Rightarrow> future list \<Rightarrow>
   state \<Rightarrow> scheduler" where
  "main_loop ucd prev root [] list_of_futures st = Scheduling list_of_futures st"
| "main_loop ucd prev root (c # cycles) list_of_futures st =
     (case schedule ucd prev root c list_of_futures st of
        Scheduling list_of_futures st \<Rightarrow> main_loop ucd prev root cycles list_of_futures st
      | Waiting list_of_futures st \<Rightarrow> Waiting list_of_futures st
      | Aborted e list_of_futures st \<Rightarrow> Aborted e list_of_futures st)"

text \<open>The futures the scheduler holds, and the state it is in.\<close>

fun tracked :: "scheduler \<Rightarrow> future list" where
  "tracked (Scheduling list_of_futures st) = list_of_futures"
| "tracked (Waiting list_of_futures st) = list_of_futures"
| "tracked (Aborted e list_of_futures st) = list_of_futures"

fun state_of :: "scheduler \<Rightarrow> state" where
  "state_of (Scheduling list_of_futures st) = st"
| "state_of (Waiting list_of_futures st) = st"
| "state_of (Aborted e list_of_futures st) = st"


section \<open>Vocabulary of the properties\<close>

text \<open>The character set of the specification's file-name property.\<close>

definition spec_safe_char :: "nat \<Rightarrow> bool" where
  "spec_safe_char c =
     ((65 \<le> c \<and> c \<le> 90) \<or> (97 \<le> c \<and> c \<le> 122) \<or> (48 \<le> c \<and> c \<le> 57) \<or>
      c = 32 \<or> c = 45 \<or> c = 95 \<or> c = 46)"

text \<open>The time of scenario B, 2024-01-02 03:04:05.\<close>

definition scenario_B_time :: datetime where
  "scenario_B_time = \<lparr>year = 2024, month = 1, day = 2, hour = 3, minute = 4, second = 5\<rparr>"

text \<open>The events that a run has added to the trace.\<close>

definition new_events :: "state \<Rightarrow> state \<Rightarrow> event list" where
  "new_events st st' = drop (length (trace st)) (trace st')"

text \<open>An event that is neither a poll nor a step of the lock, and no sleep of negative length.\<close>

fun quiet :: "event \<Rightarrow> bool" where
  "quiet Poll = False"
| "quiet (Lock_Acquire l) = False"
| "quiet (Lock_Timeout l) = False"
| "quiet (Lock_Release l) = False"
| "quiet (Sleep n) = (0 \<le> n)"
| "quiet e = True"

text \<open>
  \<open>advances st st'\<close>: the later state has the trace of the earlier one followed by quiet
  events, and the same interval, logger and ffmpeg switch.
\<close>

definition advances :: "state \<Rightarrow> state \<Rightarrow> bool" where
  "advances st st' \<longleftrightarrow>
     (\<exists>es. trace st' = trace st @ es \<and> list_all quiet es) \<and>
     refresh (self st') = refresh (self st) \<and> logger (self st') = logger (self st) \<and>
     disable_ffmpeg (self st') = disable_ffmpeg (self st)"

text \<open>
  \<open>spaced g since es\<close>: in the events \<open>es\<close>, every poll but the first comes after at
  least \<open>g\<close> seconds of sleep since the poll before it. \<open>since\<close> is the time slept since
  the last poll, \<open>None\<close> before the first one; \<open>since_after\<close> is its value after \<open>es\<close>.
\<close>

fun spaced :: "int \<Rightarrow> int option \<Rightarrow> event list \<Rightarrow> bool" where
  "spaced g since [] = True"
| "spaced g since (Poll # es) =
     ((case since of None \<Rightarrow> True | Some s \<Rightarrow> g \<le> s) \<and> spaced g (Some 0) es)"
| "spaced g since (Sleep n # es) = spaced g (map_option (\<lambda>s. s + n) since) es"
| "spaced g since (e # es) = spaced g since es"

fun since_after :: "int option \<Rightarrow> event list \<Rightarrow> int option" where
  "since_after since [] = since"
| "since_after since (Poll # es) = since_after (Some 0) es"
| "since_after since (Sleep n # es) = since_after (map_option (\<lambda>s. s + n) since) es"
| "since_after since (e # es) = since_after since es"

definition rested :: "int \<Rightarrow> int option \<Rightarrow> bool" where
  "rested g since = (case since of None \<Rightarrow> True | Some s \<Rightarrow> g \<le> s)"

text \<open>The number of times the lock was tried.\<close>

definition lock_attempts :: "event list \<Rightarrow> nat" where
  "lock_attempts es =
     length (filter (\<lambda>e. case e of Lock_Acquire l \<Rightarrow> True | Lock_Timeout l \<Rightarrow> True | _ \<Rightarrow> False) es)"

text \<open>
  The worlds in which \<^verbatim>\<open>check\<close> raises nothing, for a recorder with or without a logger
  and with poll interval \<open>r\<close>: the lock is busy, or the poll comes back with a status, and
  then the branch's sleep is one the platform accepts, a token refresh succeeds, and a live
  stream has a first entry with a title, a logger to announce the recording and a capture
  tool that starts.
\<close>

definition harmless :: "bool \<Rightarrow> int \<Rightarrow> world \<Rightarrow> bool" where
  "harmless has_logger r w =
     (\<not> lock_free w \<or>
      (case check_user (http w) of
         Inl e \<Rightarrow> False
       | Inr (status, info) \<Rightarrow>
           if status = NOT_FOUND \<or> status = OFFLINE then 0 \<le> r \<and> r \<le> max_sleep w
           else if status = ERROR then 300 \<le> max_sleep w
           else if status = UNAUTHORIZED then token_reply w \<noteq> None
           else
             has_logger \<and> capture w \<noteq> Launch_Failure \<and>
             (case info of
                Object (Some (channel # _)) \<Rightarrow> title channel \<noteq> None
              | _ \<Rightarrow> False)))"

subsection \<open>Concrete recorders and worlds\<close>

text \<open>
  The recorder of channel "alice" as multi-target mode makes it, on an empty disk; the
  same with an interval of 5 seconds; and the same with one recorded file on disk.
\<close>

definition alice :: state where
  "alice = \<lparr>self = new_recorder (str ''data'') (str ''token'') (str ''alice''),
            files = [], dirs = [], trace = []\<rparr>"

definition hasty :: state where
  "hasty = alice\<lparr>self := (self alice)\<lparr>refresh := 5\<rparr>\<rparr>"

definition with_recording :: state where
  "with_recording = alice\<lparr>files := [(str ''rec.mp4'', [1, 2, 3])]\<rparr>"

definition alice_recorded :: pystr where
  "alice_recorded = str ''data/recorded/alice''"

definition alice_processed :: pystr where
  "alice_processed = str ''data/processed/alice''"

text \<open>
  A world in which the lock is free and the channel offline; the same with the lock
  busy; with a live stream titled "Ranked Play!"; and with a live stream whose entry has
  no title.
\<close>

definition offline_world :: world where
  "offline_world = \<lparr>lock_free = True, http = Response 200 (Object (Some [])),
     token_reply = Some (str ''fresh''), now = scenario_B_time,
     capture = Exited 0 None, ffmpeg = Exited 0 None, max_sleep = 9223372036\<rparr>"

definition busy_world :: world where
  "busy_world = offline_world\<lparr>lock_free := False\<rparr>"

definition online_world :: world where
  "online_world =
     offline_world\<lparr>http := Response 200 (Object (Some [\<lparr>title = Some (str ''Ranked Play!'')\<rparr>]))\<rparr>"

definition untitled_world :: world where
  "untitled_world = offline_world\<lparr>http := Response 200 (Object (Some [\<lparr>title = None\<rparr>]))\<rparr>"

text \<open>A world in which the status query is answered with HTTP 401.\<close>

definition unauthorized_world :: world where
  "unauthorized_world = offline_world\<lparr>http := Response 401 Null\<rparr>"

text \<open>
  Scheduling passes: five channels in the list file, all offline; and two channels, of
  which "alice" is live with an entry that has no title and "bob" is offline.
\<close>

definition five_channels :: cycle where
  "five_channels =
     \<lparr>completions = [],
      streamers = Some [str ''anna'', str ''bert'', str ''cleo'', str ''dave'', str ''emma''],
      cycle_token = Some (str ''token''), answers_of = (\<lambda>user. offline_world)\<rparr>"

definition alice_and_bob :: cycle where
  "alice_and_bob =
     \<lparr>completions = [], streamers = Some [str ''alice'', str ''bob''],
      cycle_token = Some (str ''token''),
      answers_of = (\<lambda>user. if user = str ''alice'' then untitled_world else offline_world)\<rparr>"

text \<open>
  A later pass over the same two channels, during which two of the tracked units
  complete; and a list of six futures, none holding an exception.
\<close>

definition draining_pass :: cycle where
  "draining_pass = alice_and_bob\<lparr>completions := [0, 0]\<rparr>"

definition six_futures :: "future list" where
  "six_futures = [None, None, None, None, None, None]"

text \<open>A machine on which ffmpeg cannot be started, whatever the file.\<close>

definition ffmpeg_missing :: "pystr \<Rightarrow> process_outcome" where
  "ffmpeg_missing p = Launch_Failure"

section \<open>Properties\<close>

subsection \<open>File names\<close>

lemma isalnum_ascii: "c < 128 \<Longrightarrow> isalnum ucd c \<Longrightarrow> spec_safe_char c"
  by (auto simp: isalnum_def spec_safe_char_def)

lemma str_extra: "x \<in> set (str '' -_.'') \<longleftrightarrow> x = 32 \<or> x = 45 \<or> x = 95 \<or> x = 46"
  by (auto simp: str_def)

lemma clean_filename_chars:
  assumes "c \<in> set (clean_filename ucd filename)"
  shows "spec_safe_char c \<or> (128 \<le> c \<and> isalnum ucd c)"
proof -
  from assms have kept: "isalnum ucd c \<or> c \<in> set (str '' -_.'')"
    by (simp add: clean_filename_def)
  show ?thesis
  proof (cases "c < 128")
    case True
    with kept show ?thesis
      using isalnum_ascii [of c ucd] by (auto simp: str_extra spec_safe_char_def)
  next
    case False
    with kept show ?thesis
      by (auto simp: str_extra spec_safe_char_def)
  qed
qed

lemma scenario_B:
  "clean_filename ucd (compose_filename (str ''bob'') scenario_B_time (str ''Ranked Play!'')) =
   str ''bob - 2024-01-02 03h04m05s - Ranked Play.mp4''"
  by (simp add: clean_filename_def compose_filename_def strftime_def zfill_def str_def
      isalnum_def decimal.simps scenario_B_time_def)

text \<open>
  C6, as the code has it. Every character of the cleaned file name is in the
  specification's set (A-Z, a-z, 0-9, space, hyphen, underscore, period) or is a
  non-ASCII character that \<^verbatim>\<open>str.isalnum\<close> accepts; and for "bob", live with the title
  "Ranked Play!" at 2024-01-02 03:04:05, the name is exactly
  "bob - 2024-01-02 03h04m05s - Ranked Play.mp4".
\<close>

theorem filename_sanitized:
  "(\<forall>c \<in> set (clean_filename ucd (compose_filename user t ttl)).
      spec_safe_char c \<or> (128 \<le> c \<and> isalnum ucd c)) \<and>
   clean_filename ucd (compose_filename (str ''bob'') scenario_B_time (str ''Ranked Play!'')) =
     str ''bob - 2024-01-02 03h04m05s - Ranked Play.mp4''"
  using clean_filename_chars scenario_B by blast

theorem filename_sanitized_witness:
  "233 \<in> set (clean_filename latin1_only
      (compose_filename (str ''bob'') scenario_B_time (str ''caf'' @ [233]))) \<and>
   (spec_safe_char 233 \<or> (128 \<le> (233::nat) \<and> isalnum latin1_only 233))"
proof -
  have m: "233 \<in> set (clean_filename latin1_only
      (compose_filename (str ''bob'') scenario_B_time (str ''caf'' @ [233])))"
    by (simp add: clean_filename_def compose_filename_def isalnum_def)
  from filename_sanitized [of latin1_only "str ''bob''" scenario_B_time "str ''caf'' @ [233]"] m
  show ?thesis by blast
qed

text \<open>
  C6 as stated fails: with the title "cafe" written with an acute accent (its last character U+00E9, which
  \<^verbatim>\<open>str.isalnum\<close> accepts) the cleaned name keeps a character outside the
  specification's set.
\<close>

theorem filename_ascii_only_counterexample:
  "\<not> list_all spec_safe_char (clean_filename latin1_only
      (compose_filename (str ''bob'') scenario_B_time (str ''caf'' @ [233])))"
  by (simp add: clean_filename_def compose_filename_def isalnum_def spec_safe_char_def
      list_all_iff)

subsection \<open>The channel list\<close>

text \<open>
  C10. A line that keeps at most one character once its trailing whitespace is
  stripped is skipped: the user names of the file are those of the lines around it. No
  recorder is made for a user name of fewer than two characters, so a one-character
  user name is never scheduled.
\<close>

theorem short_lines_skipped:
  "(length (rstrip line) \<le> 1 \<longrightarrow>
      twitch_usernames (before @ [line] @ after) =
        twitch_usernames before @ twitch_usernames after) \<and>
   (\<forall>r \<in> set (recorders root token f). 1 < length (username r))"
  by (auto simp: twitch_usernames_def recorders_def new_recorder_def)

theorem short_lines_skipped_witness:
  "length (rstrip (str ''x'' @ [10])) \<le> 1 \<and>
   twitch_usernames ([str ''alice'' @ [10]] @ [str ''x'' @ [10]] @ [str ''bo'' @ [13, 10]]) =
     [str ''alice'', str ''bo''] \<and>
   new_recorder [] [] (str ''bo'') \<in>
     set (recorders [] [] [str ''alice'' @ [10], str ''x'' @ [10], str ''bo'' @ [13, 10]]) \<and>
   1 < length (username (new_recorder [] [] (str ''bo'')))"
proof -
  have h: "length (rstrip (str ''x'' @ [10])) \<le> 1"
    by (simp add: rstrip_def isspace_def str_def)
  have a: "twitch_usernames [str ''alice'' @ [10]] = [str ''alice'']"
    by (simp add: twitch_usernames_def rstrip_def isspace_def str_def)
  have b: "twitch_usernames [str ''bo'' @ [13, 10]] = [str ''bo'']"
    by (simp add: twitch_usernames_def rstrip_def isspace_def str_def)
  have m: "new_recorder [] [] (str ''bo'') \<in>
     set (recorders [] [] [str ''alice'' @ [10], str ''x'' @ [10], str ''bo'' @ [13, 10]])"
    by (simp add: recorders_def twitch_usernames_def rstrip_def isspace_def str_def)
  from short_lines_skipped [of "str ''x'' @ [10]" "[str ''alice'' @ [10]]"
      "[str ''bo'' @ [13, 10]]" "[]" "[]"
      "[str ''alice'' @ [10], str ''x'' @ [10], str ''bo'' @ [13, 10]]"] h a b m
  show ?thesis by simp
qed

subsection \<open>The status query\<close>

lemma check_user_error_codes:
  "raise_for_status status_code \<Longrightarrow> check_user (Response status_code body) = Inr (ERROR, Null)"
  by (simp add: check_user_def response_bool_def)

lemma check_user_never_unauthorized:
  "check_user r \<noteq> Inr (UNAUTHORIZED, info) \<and> check_user r \<noteq> Inr (NOT_FOUND, info)"
  by (auto simp: check_user_def response_bool_def Let_def
      split: http_outcome.splits info.splits option.splits)

text \<open>
  C2 at the two status codes the handler names. A reply with status 401 or 404 makes
  \<^verbatim>\<open>raise_for_status\<close> raise, and the response carried by the exception is false as a
  truth value, so neither comparison is reached: \<^verbatim>\<open>check_user\<close> answers \<open>ERROR\<close> where
  the specification has \<open>UNAUTHORIZED\<close> and \<open>NOT_FOUND\<close>.
\<close>

theorem check_user_401_404_error:
  "check_user (Response 401 Null) = Inr (ERROR, Null) \<and>
   check_user (Response 404 Null) = Inr (ERROR, Null)"
  by (simp add: check_user_def raise_for_status_def response_bool_def)


subsection \<open>Repair\<close>

lemma ffmpeg_launch_failure_files:
  "files (ffmpeg_copy_and_fix_errors Launch_Failure r p st) = files st"
  by (simp add: ffmpeg_copy_and_fix_errors_def logging_def emit_def)

lemma ffmpeg_removed_launched:
  "exists r st \<Longrightarrow> \<not> exists r (ffmpeg_copy_and_fix_errors ff r p st) \<Longrightarrow> ff \<noteq> Launch_Failure"
  by (auto simp: ffmpeg_copy_and_fix_errors_def logging_def emit_def exists_def)

text \<open>
  What holds of the repair step: when ffmpeg cannot be started, every file is left as it
  was, and a recorded file that is gone after the step was not lost to a launch failure.
\<close>

lemma launch_failure_keeps_input:
  "files (ffmpeg_copy_and_fix_errors Launch_Failure recorded processed st) = files st \<and>
   (\<not> disable_ffmpeg (self st) \<longrightarrow>
      fst (process_recorded_file Launch_Failure recorded processed st) = None \<and>
      files (snd (process_recorded_file Launch_Failure recorded processed st)) = files st) \<and>
   (exists recorded st \<and> \<not> exists recorded (ffmpeg_copy_and_fix_errors ff recorded processed st)
      \<longrightarrow> ff \<noteq> Launch_Failure)"
  using ffmpeg_removed_launched [of recorded st ff processed]
  by (simp add: ffmpeg_launch_failure_files process_recorded_file_def logging_def emit_def
      ffmpeg_copy_and_fix_errors_def)

text \<open>
  C5 at a recorded file of three bytes and an ffmpeg that starts, writes nothing and exits
  with code 1. The repair step returns as after a success, with nothing logged but the
  start: the recorded file is removed and there is no processed file, so the recording is
  deleted without a repair or a move. \<^verbatim>\<open>os.remove\<close> sits behind the call inside the
  \<^verbatim>\<open>try\<close>, so that a call that raises skips it, but the call's return code is dropped.
\<close>

theorem failed_repair_deletes_recording:
  "files with_recording = [(str ''rec.mp4'', [1, 2, 3])] \<and>
   process_recorded_file (Exited 1 None) (str ''rec.mp4'') (str ''out.mp4'') with_recording =
     (None, with_recording\<lparr>files := [],
        trace := [Log INFO ''fixing %s'', Ffmpeg (str ''rec.mp4'') (str ''out.mp4''),
                  Remove (str ''rec.mp4'')]\<rparr>)"
  by (simp add: with_recording_def alice_def new_recorder_def process_recorded_file_def
      ffmpeg_copy_and_fix_errors_def os_remove_def exists_def delete_file_def logging_def
      emit_def)

subsection \<open>The status table\<close>

text \<open>
  C1 at a status query answered with HTTP 401, for the recorder of "alice". The poll
  comes back as \<open>ERROR\<close>, not as \<open>UNAUTHORIZED\<close>: \<^verbatim>\<open>check\<close> logs an unexpected error and
  sleeps the 300-second cooldown under the lock; no new token is requested and no second
  poll is made.
\<close>

theorem unauthorized_poll_takes_error_row:
  "check_user (http unauthorized_world) = Inr (ERROR, Null) \<and>
   check latin1_only unauthorized_world alice_recorded alice_processed alice =
     (None, alice\<lparr>files := [(str ''data/recorded/alice.lock'', [])],
        trace :=
          [Lock_Acquire (str ''data/recorded/alice.lock''), Poll,
           Log ERROR_LEVEL ''%s unexpected error. will try again in 5 minutes'', Sleep 300,
           Lock_Release (str ''data/recorded/alice.lock'')]\<rparr>)"
  by code_simp


subsection \<open>How the trace grows\<close>

named_theorems adv

lemma self_logging [simp]: "self (logging l m st) = self st"
  by (simp add: logging_def emit_def)

lemma self_emit [simp]: "self (emit e st) = self st"
  by (simp add: emit_def)

lemma self_write_file [simp]: "self (write_file p b st) = self st"
  by (simp add: write_file_def)

lemma trace_write_file [simp]: "trace (write_file p b st) = trace st"
  by (simp add: write_file_def)

lemma advances_refl [simp]: "advances st st"
  by (simp add: advances_def)

lemma advances_trans: "advances a b \<Longrightarrow> advances b c \<Longrightarrow> advances a c"
  by (auto simp: advances_def)

lemma advances_emit [adv]: "quiet e \<Longrightarrow> advances st s \<Longrightarrow> advances st (emit e s)"
  by (auto simp: advances_def emit_def)

lemma advances_logging [adv]: "advances st s \<Longrightarrow> advances st (logging l msg s)"
  by (simp add: logging_def advances_emit)

lemma advances_self_logger [adv]: "advances st s \<Longrightarrow> advances st (snd (self_logger l msg s))"
  by (simp add: self_logger_def advances_emit)

lemma advances_sleep [adv]: "advances st s \<Longrightarrow> advances st (snd (sleep m n s))"
  by (simp add: sleep_def advances_emit)

lemma advances_write_file [adv]: "advances st s \<Longrightarrow> advances st (write_file p b s)"
  by (simp add: advances_def write_file_def)

lemma advances_os_remove [adv]: "advances st s \<Longrightarrow> advances st (snd (os_remove p s))"
  by (auto simp: advances_def os_remove_def emit_def)

lemma advances_shutil_move [adv]:
  "advances st s \<Longrightarrow> advances st (snd (shutil_move src dst s))"
  by (auto simp: advances_def shutil_move_def emit_def write_file_def split: option.splits)

lemma advances_and_then [adv]:
  assumes "advances st (snd r)" and "\<And>s. advances st s \<Longrightarrow> advances st (snd (f s))"
  shows "advances st (snd (and_then r f))"
proof (cases r)
  case (Pair raised s)
  with assms show ?thesis
    by (cases raised) (auto simp: and_then_def)
qed

lemma advances_ffmpeg [adv]:
  assumes "advances st s"
  shows "advances st (ffmpeg_copy_and_fix_errors ff r p s)"
proof (cases ff)
  case Launch_Failure
  with assms show ?thesis
    by (simp add: ffmpeg_copy_and_fix_errors_def advances_logging advances_emit)
next
  case (Exited code out)
  define s2 where
    "s2 = (case out of None \<Rightarrow> emit (Ffmpeg r p) s | Some b \<Rightarrow> write_file p b (emit (Ffmpeg r p) s))"
  have 2: "advances st s2"
    unfolding s2_def using assms
    by (simp add: advances_emit advances_write_file split: option.splits)
  obtain raised s3 where rm: "os_remove r s2 = (raised, s3)"
    by (cases "os_remove r s2")
  from advances_os_remove [OF 2, of r] rm have 3: "advances st s3" by simp
  have "ffmpeg_copy_and_fix_errors ff r p s =
     (case raised of None \<Rightarrow> s3 | Some e \<Rightarrow> logging ERROR_LEVEL ''%s'' s3)"
    using Exited rm by (simp add: ffmpeg_copy_and_fix_errors_def s2_def split: option.splits)
  with 3 show ?thesis
    by (simp add: advances_logging split: option.splits)
qed

lemma advances_process_recorded_file [adv]:
  "advances st s \<Longrightarrow> advances st (snd (process_recorded_file ff r p s))"
  by (simp add: process_recorded_file_def advances_shutil_move advances_logging advances_ffmpeg)

lemma advances_fetch_access_token [adv]:
  "advances st s \<Longrightarrow> advances st (snd (fetch_access_token w s))"
  by (auto simp: fetch_access_token_def advances_def emit_def Let_def split: option.splits)

lemma advances_run_streamlink [adv]:
  "advances st s \<Longrightarrow> advances st (snd (run_streamlink cap p s))"
  by (simp add: run_streamlink_def Let_def advances_emit advances_write_file
      split: process_outcome.splits option.splits)

lemma advances_record_stream [adv]:
  "advances st s \<Longrightarrow> advances st (snd (record_stream ucd w rp pp info s))"
  unfolding record_stream_def Let_def
  by (auto split: info.splits option.splits list.splits intro!: adv)

lemma advances_handle_status [adv]:
  "advances st s \<Longrightarrow> advances st (snd (handle_status ucd w rp pp status info s))"
  unfolding handle_status_def
  by (auto intro!: adv)

lemma advances_process_files [adv]:
  "advances st s \<Longrightarrow> advances st (snd (process_files prev rp pp fs s))"
proof (induction fs arbitrary: s)
  case Nil
  then show ?case by simp
next
  case (Cons f fs)
  obtain raised s1 where p: "process_recorded_file (prev (path_join rp f)) (path_join rp f)
      (path_join pp f) s = (raised, s1)"
    by (cases "process_recorded_file (prev (path_join rp f)) (path_join rp f) (path_join pp f) s")
  from advances_process_recorded_file [OF Cons.prems, of "prev (path_join rp f)" "path_join rp f" "path_join pp f"] p
  have "advances st s1" by simp
  with Cons.IH [of s1] p show ?case
    by (cases raised) (simp_all add: Let_def)
qed

lemma advances_fix_previous [adv]:
  "advances st s \<Longrightarrow> advances st (fix_previous prev rp pp s)"
proof -
  assume a: "advances st s"
  let ?r = "and_then
                (if length (listdir_files rp s) > 0
                 then self_logger INFO ''processing previously recorded files'' s
                 else (None, s))
                (process_files prev rp pp (listdir_files rp s))"
  have "advances st (snd ?r)"
    using a by (auto intro!: adv)
  then show ?thesis
    unfolding fix_previous_def Let_def
    by (cases ?r) (auto split: option.splits intro!: adv)
qed

lemma advances_makedirs [adv]: "advances st s \<Longrightarrow> advances st (makedirs_if_missing p s)"
  by (auto simp: makedirs_if_missing_def advances_def emit_def)

lemma spaced_append:
  "spaced g since (xs @ ys) \<longleftrightarrow> spaced g since xs \<and> spaced g (since_after since xs) ys"
proof (induction xs arbitrary: since)
  case Nil
  then show ?case by simp
next
  case (Cons x xs)
  then show ?case by (cases x) simp_all
qed

lemma since_after_append:
  "since_after since (xs @ ys) = since_after (since_after since xs) ys"
proof (induction xs arbitrary: since)
  case Nil
  then show ?case by simp
next
  case (Cons x xs)
  then show ?case by (cases x) simp_all
qed

lemma quiet_spaced: "list_all quiet es \<Longrightarrow> spaced g since es"
proof (induction es arbitrary: since)
  case Nil
  then show ?case by simp
next
  case (Cons e es)
  then show ?case by (cases e) simp_all
qed

lemma quiet_since_None: "list_all quiet es \<Longrightarrow> since_after None es = None"
proof (induction es)
  case Nil
  then show ?case by simp
next
  case (Cons e es)
  then show ?case by (cases e) simp_all
qed

lemma quiet_since_Some:
  "list_all quiet es \<Longrightarrow> \<exists>s'. since_after (Some s) es = Some s' \<and> s \<le> s'"
proof (induction es arbitrary: s)
  case Nil
  then show ?case by simp
next
  case (Cons e es)
  show ?case
  proof (cases e)
    case (Sleep n)
    with Cons.prems have "0 \<le> n" and "list_all quiet es" by simp_all
    from Cons.IH [OF this(2), of "s + n"] \<open>0 \<le> n\<close> Sleep show ?thesis by auto
  qed (use Cons in simp_all)
qed

lemma quiet_rested: "list_all quiet es \<Longrightarrow> rested g since \<Longrightarrow> rested g (since_after since es)"
proof (cases since)
  case None
  assume "list_all quiet es"
  with None show ?thesis by (simp add: quiet_since_None rested_def)
next
  case (Some s)
  assume q: "list_all quiet es" and "rested g since"
  with Some have "g \<le> s" by (simp add: rested_def)
  moreover from quiet_since_Some [OF q, of s] obtain s' where "since_after (Some s) es = Some s'" "s \<le> s'"
    by blast
  ultimately show ?thesis using Some by (simp add: rested_def)
qed

lemma check_busy:
  "\<not> lock_free w \<Longrightarrow> check ucd w rp pp st = (None, emit (Lock_Timeout (rp @ str ''.lock'')) st)"
  by (simp add: check_def)

lemma check_free:
  "lock_free w \<Longrightarrow>
   check ucd w rp pp st =
     (let s0 = emit Poll (emit (Lock_Acquire (rp @ str ''.lock''))
      (write_file (rp @ str ''.lock'') [] st));
          r = (case check_user (http w) of
                 Inl e \<Rightarrow> (Some e, s0)
               | Inr (status, info) \<Rightarrow> handle_status ucd w rp pp status info s0)
      in (fst r, emit (Lock_Release (rp @ str ''.lock'')) (snd r)))"
  by (simp add: check_def Let_def case_prod_beta)

lemma check_free_trace:
  assumes "lock_free w"
  shows "\<exists>es. trace (snd (check ucd w rp pp st)) =
            trace st @ [Lock_Acquire (rp @ str ''.lock''), Poll] @ es @
              [Lock_Release (rp @ str ''.lock'')] \<and> list_all quiet es"
proof -
  define s0 where "s0 = emit Poll (emit (Lock_Acquire (rp @ str ''.lock''))
      (write_file (rp @ str ''.lock'') [] st))"
  define r where "r = (case check_user (http w) of
                 Inl e \<Rightarrow> (Some e, s0)
               | Inr (status, info) \<Rightarrow> handle_status ucd w rp pp status info s0)"
  have "advances s0 (snd r)"
    unfolding r_def by (auto split: sum.splits intro!: adv)
  then obtain es where es: "trace (snd r) = trace s0 @ es" "list_all quiet es"
    by (auto simp: advances_def)
  have "check ucd w rp pp st = (fst r, emit (Lock_Release (rp @ str ''.lock'')) (snd r))"
    unfolding r_def s0_def using check_free [OF assms, of ucd rp pp st] by (simp add: Let_def)
  with es show ?thesis
    by (simp add: emit_def s0_def)
qed

lemma check_settings:
  "refresh (self (snd (check ucd w rp pp st))) = refresh (self st) \<and>
   logger (self (snd (check ucd w rp pp st))) = logger (self st)"
proof (cases "lock_free w")
  case False
  then show ?thesis by (simp add: check_busy emit_def)
next
  case True
  define s0 where "s0 = emit Poll (emit (Lock_Acquire (rp @ str ''.lock''))
      (write_file (rp @ str ''.lock'') [] st))"
  define r where "r = (case check_user (http w) of
                 Inl e \<Rightarrow> (Some e, s0)
               | Inr (status, info) \<Rightarrow> handle_status ucd w rp pp status info s0)"
  have "advances s0 (snd r)"
    unfolding r_def by (auto split: sum.splits intro!: adv)
  then have "refresh (self (snd r)) = refresh (self s0)" "logger (self (snd r)) = logger (self s0)"
    by (simp_all add: advances_def)
  moreover have "check ucd w rp pp st = (fst r, emit (Lock_Release (rp @ str ''.lock'')) (snd r))"
    unfolding r_def s0_def using check_free [OF True, of ucd rp pp st] by (simp add: Let_def)
  ultimately show ?thesis by (simp add: emit_def s0_def)
qed

text \<open>One check adds events that keep polls apart, and leaves the recorder rested or just polled.\<close>

lemma check_events:
  "\<exists>es. trace (snd (check ucd w rp pp st)) = trace st @ es \<and>
      (\<forall>since. rested g since \<longrightarrow> spaced g since es) \<and>
      (\<forall>since. rested g since \<longrightarrow>
         (\<exists>s'. since_after since es = Some s' \<and> 0 \<le> s') \<or> rested g (since_after since es))"
proof (cases "lock_free w")
  case False
  then show ?thesis
    by (simp add: check_busy emit_def)
next
  case True
  from check_free_trace [OF True, of ucd rp pp st] obtain es where
    es: "trace (snd (check ucd w rp pp st)) =
            trace st @ [Lock_Acquire (rp @ str ''.lock''), Poll] @ es @
              [Lock_Release (rp @ str ''.lock'')]" "list_all quiet es"
    by blast
  let ?es = "[Lock_Acquire (rp @ str ''.lock''), Poll] @ es @ [Lock_Release (rp @ str ''.lock'')]"
  have 1: "spaced g since ?es" if "rested g since" for since
    using that es(2) by (simp add: spaced_append quiet_spaced rested_def)
  have 2: "\<exists>s'. since_after since ?es = Some s' \<and> 0 \<le> s'" for since
    using quiet_since_Some [OF es(2), of 0] by (auto simp: since_after_append)
  from es(1) 1 2 show ?thesis by blast
qed

subsection \<open>The lock\<close>

lemma and_then_None [simp]: "and_then (None, s) f = f s"
  by (simp add: and_then_def)

lemma and_then_Some [simp]: "and_then (Some e, s) f = (Some e, s)"
  by (simp add: and_then_def)

lemma kept:
  "advances s s' \<Longrightarrow> e \<in> set (drop n (trace s)) \<Longrightarrow> e \<in> set (drop n (trace s'))"
  by (auto simp: advances_def)

lemma kept_logging:
  "e \<in> set (drop n (trace s)) \<Longrightarrow> e \<in> set (drop n (trace (logging l m s)))"
  by (rule kept [OF advances_logging [OF advances_refl]])

lemma kept_process:
  "e \<in> set (drop n (trace s)) \<Longrightarrow>
   e \<in> set (drop n (trace (snd (process_recorded_file ff r p s))))"
  by (rule kept [OF advances_process_recorded_file [OF advances_refl]])

lemma kept_and_then:
  assumes "e \<in> set (drop n (trace (snd r)))"
    and "\<And>s. e \<in> set (drop n (trace s)) \<Longrightarrow> e \<in> set (drop n (trace (snd (f s))))"
  shows "e \<in> set (drop n (trace (snd (and_then r f))))"
proof (cases r)
  case (Pair raised s)
  with assms show ?thesis by (cases raised) auto
qed

lemma record_stream_streamlink:
  assumes "title ch = Some ttl" and "logger (self s)" and "n \<le> length (trace s)"
  shows "Streamlink (path_join rp
            (clean_filename ucd (compose_filename (username (self s)) (now w) ttl)))
         \<in> set (drop n
             (trace (snd (record_stream ucd w rp pp (Object (Some (ch # chs))) s))))"
proof -
  let ?f = "path_join rp (clean_filename ucd (compose_filename (username (self s)) (now w) ttl))"
  let ?s2 = "emit (Log INFO ''Recording user %s'')
      (logging INFO ''%s online, stream recording in session'' s)"
  have start: "Streamlink ?f \<in> set (drop n (trace (snd (run_streamlink (capture w) ?f ?s2))))"
    using assms(3) by (simp add: run_streamlink_def Let_def emit_def write_file_def logging_def
        split: process_outcome.splits option.splits)
  have "record_stream ucd w rp pp (Object (Some (ch # chs))) s =
      and_then (run_streamlink (capture w) ?f ?s2) (\<lambda>st.
        and_then
          (if exists ?f (logging INFO ''recording stream is done, processing video file'' st)
           then process_recorded_file (ffmpeg w) ?f
                  (path_join pp (clean_filename ucd
                     (compose_filename (username (self s)) (now w) ttl)))
                  (logging INFO ''recording stream is done, processing video file'' st)
           else (None, logging INFO ''skip fixing, file not found''
                   (logging INFO ''recording stream is done, processing video file'' st)))
          (\<lambda>st. (None, logging INFO ''processing is done, going back to checking...'' st)))"
    using assms(1,2) by (simp add: record_stream_def Let_def self_logger_def cong: if_cong)
  then show ?thesis
    using start by (auto intro!: kept_and_then kept_logging kept_process)
qed

text \<open>
  C3, as the code has it. The lock is tried at the start of every check, before the
  poll: with the lock free, the events of a check are the acquisition, the poll, quiet
  events and the release, whatever the poll returns. With the lock busy the check ends
  there, raising nothing, with no poll and nothing else changed, and \<^verbatim>\<open>loop_check\<close>
  goes on to its next iteration after sleeping the poll interval (an interval that
  \<^verbatim>\<open>time.sleep\<close> accepts). With the lock free and
  the channel live, its first entry titled, and a logger attached, streamlink is started
  on the composed file name while the lock is held.
\<close>

theorem lock_around_every_check:
  "(lock_free w \<longrightarrow>
      (\<exists>es. new_events st (snd (check ucd w rp pp st)) =
              [Lock_Acquire (rp @ str ''.lock''), Poll] @ es @ [Lock_Release (rp @ str ''.lock'')] \<and>
            list_all quiet es)) \<and>
   (\<not> lock_free w \<longrightarrow>
      check ucd w rp pp st = (None, st\<lparr>trace := trace st @ [Lock_Timeout (rp @ str ''.lock'')]\<rparr>)) \<and>
   (\<not> lock_free w \<and> 0 \<le> refresh (self st) \<and> refresh (self st) \<le> max_sleep w \<longrightarrow>
      loop_check ucd (w # ws) rp pp st =
        loop_check ucd ws rp pp
          (st\<lparr>trace := trace st @
             [Lock_Timeout (rp @ str ''.lock''), Sleep (refresh (self st))]\<rparr>)) \<and>
   (lock_free w \<and> check_user (http w) = Inr (ONLINE, Object (Some (ch # chs))) \<and>
    title ch = Some ttl \<and> logger (self st) \<longrightarrow>
      Streamlink (path_join rp
          (clean_filename ucd (compose_filename (username (self st)) (now w) ttl)))
        \<in> set (new_events st (snd (check ucd w rp pp st))))"
proof (intro conjI impI)
  assume "lock_free w"
  from check_free_trace [OF this, of ucd rp pp st]
  show "\<exists>es. new_events st (snd (check ucd w rp pp st)) =
              [Lock_Acquire (rp @ str ''.lock''), Poll] @ es @ [Lock_Release (rp @ str ''.lock'')] \<and>
            list_all quiet es"
    by (auto simp: new_events_def)
next
  assume "\<not> lock_free w"
  then show "check ucd w rp pp st =
      (None, st\<lparr>trace := trace st @ [Lock_Timeout (rp @ str ''.lock'')]\<rparr>)"
    by (simp add: check_busy emit_def)
next
  assume "\<not> lock_free w \<and> 0 \<le> refresh (self st) \<and> refresh (self st) \<le> max_sleep w"
  then show "loop_check ucd (w # ws) rp pp st =
        loop_check ucd ws rp pp
          (st\<lparr>trace := trace st @
             [Lock_Timeout (rp @ str ''.lock''), Sleep (refresh (self st))]\<rparr>)"
    by (simp add: check_busy emit_def sleep_def)
next
  assume a: "lock_free w \<and> check_user (http w) = Inr (ONLINE, Object (Some (ch # chs))) \<and>
    title ch = Some ttl \<and> logger (self st)"
  let ?f = "path_join rp (clean_filename ucd (compose_filename (username (self st)) (now w) ttl))"
  let ?s0 = "emit Poll (emit (Lock_Acquire (rp @ str ''.lock''))
      (write_file (rp @ str ''.lock'') [] st))"
  have "Streamlink ?f \<in> set (drop (length (trace st))
      (trace (snd (record_stream ucd w rp pp (Object (Some (ch # chs))) ?s0))))"
    using a record_stream_streamlink [of ch ttl ?s0 "length (trace st)" rp ucd w pp chs]
    by (simp add: emit_def)
  then show "Streamlink ?f \<in> set (new_events st (snd (check ucd w rp pp st)))"
    using a by (simp add: check_free Let_def handle_status_def new_events_def emit_def)
qed

text \<open>
  The theorem at the recorder of "alice": live with the title "Ranked Play!" and the
  lock free, and offline with the lock busy.
\<close>

theorem lock_around_every_check_witness:
  "lock_free online_world \<and>
   check_user (http online_world) =
     Inr (ONLINE, Object (Some (\<lparr>title = Some (str ''Ranked Play!'')\<rparr> # []))) \<and>
   title \<lparr>title = Some (str ''Ranked Play!'')\<rparr> = Some (str ''Ranked Play!'') \<and>
   logger (self alice) \<and>
   Streamlink (str ''data/recorded/alice/alice - 2024-01-02 03h04m05s - Ranked Play.mp4'')
     \<in> set (new_events alice
         (snd (check latin1_only online_world alice_recorded alice_processed alice))) \<and>
   \<not> lock_free busy_world \<and> 0 \<le> refresh (self alice) \<and>
   refresh (self alice) \<le> max_sleep busy_world \<and>
   check latin1_only busy_world alice_recorded alice_processed alice =
     (None, alice\<lparr>trace := [Lock_Timeout (str ''data/recorded/alice.lock'')]\<rparr>) \<and>
   loop_check latin1_only [busy_world] alice_recorded alice_processed alice =
     (None, alice\<lparr>trace := [Lock_Timeout (str ''data/recorded/alice.lock''), Sleep 15]\<rparr>)"
proof -
  have free: "lock_free online_world"
    by (simp add: online_world_def offline_world_def)
  have on: "check_user (http online_world) =
     Inr (ONLINE, Object (Some (\<lparr>title = Some (str ''Ranked Play!'')\<rparr> # [])))"
    by (simp add: online_world_def offline_world_def check_user_def raise_for_status_def)
  have lg: "logger (self alice)" and r: "0 \<le> refresh (self alice)"
    and r15: "refresh (self alice) = 15" and t: "trace alice = []"
    by (simp_all add: alice_def new_recorder_def)
  have busy: "\<not> lock_free busy_world"
    by (simp add: busy_world_def)
  have lim: "refresh (self alice) \<le> max_sleep busy_world"
    by (simp add: busy_world_def offline_world_def alice_def new_recorder_def)
  have name: "path_join alice_recorded (clean_filename latin1_only
        (compose_filename (username (self alice)) (now online_world) (str ''Ranked Play!''))) =
      str ''data/recorded/alice/alice - 2024-01-02 03h04m05s - Ranked Play.mp4''"
    by code_simp
  have lock: "alice_recorded @ str ''.lock'' = str ''data/recorded/alice.lock''"
    by (simp add: alice_recorded_def str_def)
  from lock_around_every_check [where w = online_world and st = alice and ucd = latin1_only
      and rp = alice_recorded and pp = alice_processed
      and ch = "\<lparr>title = Some (str ''Ranked Play!'')\<rparr>" and chs = "[]"
      and ttl = "str ''Ranked Play!''"] free on lg name
  have 1: "Streamlink (str ''data/recorded/alice/alice - 2024-01-02 03h04m05s - Ranked Play.mp4'')
     \<in> set (new_events alice
         (snd (check latin1_only online_world alice_recorded alice_processed alice)))"
    by simp
  from lock_around_every_check [where w = busy_world and st = alice and ucd = latin1_only
      and rp = alice_recorded and pp = alice_processed and ws = "[]"] busy r lim r15 t lock
  have 2: "check latin1_only busy_world alice_recorded alice_processed alice =
     (None, alice\<lparr>trace := [Lock_Timeout (str ''data/recorded/alice.lock'')]\<rparr>)"
    and 3: "loop_check latin1_only [busy_world] alice_recorded alice_processed alice =
     (None, alice\<lparr>trace := [Lock_Timeout (str ''data/recorded/alice.lock''), Sleep 15]\<rparr>)"
    by (simp_all del: loop_check.simps(2))
  from free on lg busy r lim 1 2 3 show ?thesis by simp
qed

text \<open>
  C3 as stated fails in its first part: the lock is taken on a check whose poll
  returns \<open>OFFLINE\<close>.
\<close>

theorem lock_taken_when_offline_counterexample:
  "check_user (http offline_world) = Inr (OFFLINE, Object (Some [])) \<and>
   new_events alice (snd (check latin1_only offline_world alice_recorded alice_processed alice)) =
     [Lock_Acquire (str ''data/recorded/alice.lock''), Poll,
      Log INFO ''%s currently offline, checking again in %s seconds'', Sleep 15,
      Lock_Release (str ''data/recorded/alice.lock'')]"
  by code_simp

subsection \<open>What ends the polling loop\<close>

lemma exists_move_returns:
  "exists p st \<Longrightarrow> fst (shutil_move p d (logging l m st)) = None"
  by (auto simp: exists_def shutil_move_def logging_def emit_def)

lemma process_existing_returns:
  "exists p st \<Longrightarrow> fst (process_recorded_file ff p d st) = None"
  by (simp add: process_recorded_file_def exists_move_returns)

lemma fst_and_then: "fst (and_then r f) = None \<longleftrightarrow> fst r = None \<and> fst (f (snd r)) = None"
  by (cases r; cases "fst r") (auto simp: and_then_def)

lemma fst_self_logger: "fst (self_logger l m st) = None \<longleftrightarrow> logger (self st)"
  by (simp add: self_logger_def)

lemma fst_run_streamlink: "fst (run_streamlink cap p st) = None \<longleftrightarrow> cap \<noteq> Launch_Failure"
  by (simp add: run_streamlink_def Let_def split: process_outcome.splits)

lemma fst_sleep: "fst (sleep m n st) = None \<longleftrightarrow> 0 \<le> n \<and> n \<le> m"
  by (simp add: sleep_def)

lemma fst_fetch_access_token: "fst (fetch_access_token w st) = None \<longleftrightarrow> token_reply w \<noteq> None"
  by (simp add: fetch_access_token_def Let_def split: option.splits)

lemma record_stream_returns_iff:
  "fst (record_stream ucd w rp pp info st) = None \<longleftrightarrow>
     logger (self st) \<and> capture w \<noteq> Launch_Failure \<and>
     (case info of Object (Some (channel # _)) \<Rightarrow> title channel \<noteq> None | _ \<Rightarrow> False)"
  by (simp add: record_stream_def Let_def fst_and_then fst_self_logger fst_run_streamlink
      process_existing_returns
      split: info.splits option.splits list.splits)

lemma handle_status_returns_iff:
  "fst (handle_status ucd w rp pp status info st) = None \<longleftrightarrow>
     (if status = NOT_FOUND \<or> status = OFFLINE then
        0 \<le> refresh (self st) \<and> refresh (self st) \<le> max_sleep w
      else if status = ERROR then 300 \<le> max_sleep w
      else if status = UNAUTHORIZED then token_reply w \<noteq> None
      else
        logger (self st) \<and> capture w \<noteq> Launch_Failure \<and>
        (case info of Object (Some (channel # _)) \<Rightarrow> title channel \<noteq> None | _ \<Rightarrow> False))"
  by (cases status)
    (simp_all add: handle_status_def fst_sleep fst_fetch_access_token record_stream_returns_iff)

lemma check_returns_iff:
  "fst (check ucd w rp pp st) = None \<longleftrightarrow> harmless (logger (self st)) (refresh (self st)) w"
proof (cases "lock_free w")
  case False
  then show ?thesis by (simp add: check_busy harmless_def)
next
  case True
  let ?s0 = "emit Poll (emit (Lock_Acquire (rp @ str ''.lock''))
      (write_file (rp @ str ''.lock'') [] st))"
  show ?thesis
  proof (cases "check_user (http w)")
    case (Inl e)
    with True show ?thesis by (simp add: check_free harmless_def Let_def)
  next
    case (Inr p)
    obtain status info where p: "p = (status, info)" by (cases p)
    from handle_status_returns_iff [of ucd w rp pp status info ?s0] True Inr p
    show ?thesis by (simp add: check_free harmless_def Let_def)
  qed
qed

lemma lock_attempts_append: "lock_attempts (xs @ ys) = lock_attempts xs + lock_attempts ys"
  by (simp add: lock_attempts_def)

lemma quiet_no_lock_attempts: "list_all quiet es \<Longrightarrow> lock_attempts es = 0"
proof (induction es)
  case Nil
  then show ?case by (simp add: lock_attempts_def)
next
  case (Cons e es)
  then show ?case by (cases e) (simp_all add: lock_attempts_def)
qed

lemma check_one_lock_attempt:
  "\<exists>es. trace (snd (check ucd w rp pp st)) = trace st @ es \<and> lock_attempts es = 1"
proof (cases "lock_free w")
  case False
  then show ?thesis by (simp add: check_busy emit_def lock_attempts_def)
next
  case True
  from check_free_trace [OF True, of ucd rp pp st] obtain es where
    "trace (snd (check ucd w rp pp st)) =
            trace st @ [Lock_Acquire (rp @ str ''.lock''), Poll] @ es @
              [Lock_Release (rp @ str ''.lock'')]" "list_all quiet es"
    by blast
  moreover have "lock_attempts [Lock_Acquire (rp @ str ''.lock''), Poll] = 1"
    and "lock_attempts [Lock_Release (rp @ str ''.lock'')] = 0"
    by (simp_all add: lock_attempts_def)
  ultimately have "lock_attempts ([Lock_Acquire (rp @ str ''.lock''), Poll] @ es @
              [Lock_Release (rp @ str ''.lock'')]) = 1"
    by (simp only: lock_attempts_append quiet_no_lock_attempts)
  with \<open>trace (snd (check ucd w rp pp st)) = _\<close> show ?thesis by blast
qed

lemma loop_check_harmless:
  assumes "\<forall>w \<in> set ws. harmless (logger (self st)) (refresh (self st)) w \<and>
             0 \<le> refresh (self st) \<and> refresh (self st) \<le> max_sleep w"
  shows "fst (loop_check ucd ws rp pp st) = None \<and>
     (\<exists>es. trace (snd (loop_check ucd ws rp pp st)) = trace st @ es \<and>
        lock_attempts es = length ws)"
  using assms
proof (induction ws arbitrary: st)
  case Nil
  then show ?case by (simp add: lock_attempts_def)
next
  case (Cons w ws)
  obtain raised s1 where c: "check ucd w rp pp st = (raised, s1)"
    by (cases "check ucd w rp pp st")
  from check_returns_iff [of ucd w rp pp st] Cons.prems c
  have none: "raised = None" by simp
  from check_settings [of ucd w rp pp st] c
  have s1: "refresh (self s1) = refresh (self st)" "logger (self s1) = logger (self st)"
    by simp_all
  from check_one_lock_attempt [of ucd w rp pp st] c obtain es1 where
    es1: "trace s1 = trace st @ es1" "lock_attempts es1 = 1"
    by auto
  let ?s2 = "emit (Sleep (refresh (self s1))) s1"
  have eq: "loop_check ucd (w # ws) rp pp st = loop_check ucd ws rp pp ?s2"
    using c none s1 Cons.prems by (simp add: sleep_def)
  have "\<forall>w \<in> set ws. harmless (logger (self ?s2)) (refresh (self ?s2)) w \<and>
             0 \<le> refresh (self ?s2) \<and> refresh (self ?s2) \<le> max_sleep w"
    using s1 Cons.prems by simp
  from Cons.IH [OF this] obtain es2 where
    es2: "fst (loop_check ucd ws rp pp ?s2) = None"
      "trace (snd (loop_check ucd ws rp pp ?s2)) = trace ?s2 @ es2" "lock_attempts es2 = length ws"
    by blast
  have "trace (snd (loop_check ucd (w # ws) rp pp st)) =
      trace st @ (es1 @ [Sleep (refresh (self s1))] @ es2)"
    using eq es2(2) es1(1) by (simp add: emit_def)
  moreover have "lock_attempts (es1 @ [Sleep (refresh (self s1))] @ es2) = length (w # ws)"
    using es1(2) es2(3) unfolding lock_attempts_def by simp
  ultimately show ?case using eq es2(1) by auto
qed

lemma loop_check_raised:
  "fst (check ucd w rp pp st) = Some e \<Longrightarrow>
   loop_check ucd (w # ws) rp pp st = check ucd w rp pp st"
  by (cases "check ucd w rp pp st") simp

lemma run_units_length:
  "length (fst (run_units ucd prev answers rs st)) = length rs"
proof (induction rs arbitrary: st)
  case Nil
  then show ?case by simp
next
  case (Cons r rs)
  obtain raised s1 where u: "run ucd prev [answers (username r)] True (st\<lparr>self := r\<rparr>) = (raised, s1)"
    by (cases "run ucd prev [answers (username r)] True (st\<lparr>self := r\<rparr>)")
  obtain futures s2 where v: "run_units ucd prev answers rs s1 = (futures, s2)"
    by (cases "run_units ucd prev answers rs s1")
  from Cons.IH [of s1] v have "length futures = length rs" by simp
  with u v show ?case by simp
qed

lemma schedule_submits_batch:
  assumes "length (drain (completions c) fs) \<le> num_workers"
    and "streamers c = Some f" and "cycle_token c = Some token"
  shows "\<exists>new_futures st'.
     schedule ucd prev root c fs st = Scheduling (drain (completions c) fs @ new_futures) st' \<and>
     length new_futures = length (twitch_usernames f)"
proof -
  obtain new_futures st' where
    u: "run_units ucd prev (answers_of c) (recorders root token f) st = (new_futures, st')"
    by (cases "run_units ucd prev (answers_of c) (recorders root token f) st")
  from run_units_length [of ucd prev "answers_of c" "recorders root token f" st] u
  have "length new_futures = length (twitch_usernames f)"
    by (simp add: recorders_def)
  moreover have "schedule ucd prev root c fs st =
      Scheduling (drain (completions c) fs @ new_futures) st'"
    using assms u by (simp add: schedule_def Let_def)
  ultimately show ?thesis by blast
qed

lemma alice_and_bob_recorders:
  "recorders (str ''data'') (str ''token'') [str ''alice'', str ''bob''] =
     [new_recorder (str ''data'') (str ''token'') (str ''alice''),
      new_recorder (str ''data'') (str ''token'') (str ''bob'')]"
  by (simp add: recorders_def twitch_usernames_def rstrip_def isspace_def str_def)

lemma alice_and_bob_futures:
  "tracked (schedule latin1_only ffmpeg_missing (str ''data'') alice_and_bob [] alice) =
     [Some TypeError, None]"
proof -
  let ?a = "alice\<lparr>self := new_recorder (str ''data'') (str ''token'') (str ''alice'')\<rparr>"
  let ?r1 = "run latin1_only ffmpeg_missing [untitled_world] True ?a"
  let ?r2 = "run latin1_only ffmpeg_missing [offline_world] True
      ((snd ?r1)\<lparr>self := new_recorder (str ''data'') (str ''token'') (str ''bob'')\<rparr>)"
  have 1: "fst ?r1 = Some TypeError" by code_simp
  have 2: "fst ?r2 = None" by code_simp
  have ne: "str ''bob'' \<noteq> str ''alice''" by (simp add: str_def)
  have "run_units latin1_only ffmpeg_missing (answers_of alice_and_bob)
      (recorders (str ''data'') (str ''token'') [str ''alice'', str ''bob'']) alice =
      ([fst ?r1, fst ?r2], snd ?r2)"
    using ne by (simp add: alice_and_bob_recorders alice_and_bob_def new_recorder_def
        case_prod_beta)
  then show ?thesis
    using 1 2 by (simp add: schedule_def alice_and_bob_def num_workers_def)
qed

text \<open>
  C4, as the code has it. In the single-target loop: over worlds that are harmless and
  in which the loop's sleep is accepted, however many, the loop raises nothing and makes
  one check per world (a busy lock, \<open>OFFLINE\<close>, \<open>ERROR\<close>, a successful token refresh
  and, for a recorder with a logger, a well-formed live stream all leave it running); and
  an exception that leaves \<^verbatim>\<open>check\<close> leaves \<^verbatim>\<open>loop_check\<close> with it, so that the later
  worlds are never checked. In multi-target mode: once the scheduler has drained its list
  and read the channel list and its token, it submits the whole batch and goes on,
  whatever the units meet: every unit has its future, and an exception stays in it.
\<close>

theorem poll_failures_in_loop_and_scheduler:
  "((\<forall>w \<in> set ws. harmless (logger (self st)) (refresh (self st)) w \<and>
        0 \<le> refresh (self st) \<and> refresh (self st) \<le> max_sleep w) \<longrightarrow>
      fst (loop_check ucd ws rp pp st) = None \<and>
      lock_attempts (new_events st (snd (loop_check ucd ws rp pp st))) = length ws) \<and>
   (fst (check ucd w rp pp st) = Some e \<longrightarrow>
      loop_check ucd (w # ws) rp pp st = check ucd w rp pp st) \<and>
   (length (drain (completions c) fs) \<le> num_workers \<and> streamers c = Some f \<and>
    cycle_token c = Some token \<longrightarrow>
      (\<exists>new_futures st'.
         schedule ucd prev root c fs disk =
           Scheduling (drain (completions c) fs @ new_futures) st' \<and>
         length new_futures = length (twitch_usernames f)))"
proof (intro conjI impI)
  assume a: "\<forall>w \<in> set ws. harmless (logger (self st)) (refresh (self st)) w \<and>
        0 \<le> refresh (self st) \<and> refresh (self st) \<le> max_sleep w"
  from loop_check_harmless [OF a, of ucd rp pp]
  show "fst (loop_check ucd ws rp pp st) = None" by blast
  from loop_check_harmless [OF a, of ucd rp pp]
  show "lock_attempts (new_events st (snd (loop_check ucd ws rp pp st))) = length ws"
    by (auto simp: new_events_def)
next
  assume "fst (check ucd w rp pp st) = Some e"
  then show "loop_check ucd (w # ws) rp pp st = check ucd w rp pp st"
    by (rule loop_check_raised)
next
  assume "length (drain (completions c) fs) \<le> num_workers \<and> streamers c = Some f \<and>
    cycle_token c = Some token"
  then show "\<exists>new_futures st'.
         schedule ucd prev root c fs disk =
           Scheduling (drain (completions c) fs @ new_futures) st' \<and>
         length new_futures = length (twitch_usernames f)"
    using schedule_submits_batch [of c fs f token ucd prev root disk] by blast
qed

text \<open>
  The theorem at the recorder of "alice": offline, then live with the title "Ranked
  Play!", then busy, the loop is still running after three checks; a live stream without
  a title raises \<^verbatim>\<open>TypeError\<close> and ends it; and a batch of two units, of which the first
  meets that stream, leaves the exception in the first future and runs the second unit.
\<close>

theorem poll_failures_in_loop_and_scheduler_witness:
  "harmless (logger (self alice)) (refresh (self alice)) offline_world \<and>
   harmless (logger (self alice)) (refresh (self alice)) online_world \<and>
   harmless (logger (self alice)) (refresh (self alice)) busy_world \<and>
   0 \<le> refresh (self alice) \<and> refresh (self alice) \<le> max_sleep offline_world \<and>
   fst (loop_check latin1_only [offline_world, online_world, busy_world] alice_recorded
          alice_processed alice) = None \<and>
   lock_attempts (new_events alice
     (snd (loop_check latin1_only [offline_world, online_world, busy_world] alice_recorded
        alice_processed alice))) = length [offline_world, online_world, busy_world] \<and>
   fst (check latin1_only untitled_world alice_recorded alice_processed alice) =
     Some TypeError \<and>
   loop_check latin1_only [untitled_world, offline_world] alice_recorded alice_processed alice =
     check latin1_only untitled_world alice_recorded alice_processed alice \<and>
   length (drain (completions alice_and_bob) []) \<le> num_workers \<and>
   streamers alice_and_bob = Some [str ''alice'', str ''bob''] \<and>
   cycle_token alice_and_bob = Some (str ''token'') \<and>
   (\<exists>new_futures st'.
      schedule latin1_only ffmpeg_missing (str ''data'') alice_and_bob [] alice =
        Scheduling (drain (completions alice_and_bob) [] @ new_futures) st' \<and>
      length new_futures = length (twitch_usernames [str ''alice'', str ''bob''])) \<and>
   tracked (schedule latin1_only ffmpeg_missing (str ''data'') alice_and_bob [] alice) =
     [Some TypeError, None]"
proof -
  have h: "harmless (logger (self alice)) (refresh (self alice)) offline_world"
    "harmless (logger (self alice)) (refresh (self alice)) online_world"
    "harmless (logger (self alice)) (refresh (self alice)) busy_world"
    by (simp_all add: harmless_def busy_world_def online_world_def offline_world_def
        check_user_def raise_for_status_def alice_def new_recorder_def)
  have r: "0 \<le> refresh (self alice)" "refresh (self alice) \<le> max_sleep offline_world"
    "refresh (self alice) \<le> max_sleep online_world"
    "refresh (self alice) \<le> max_sleep busy_world"
    by (simp_all add: alice_def new_recorder_def busy_world_def online_world_def
        offline_world_def)
  have t: "fst (check latin1_only untitled_world alice_recorded alice_processed alice) =
     Some TypeError"
    by code_simp
  have d: "length (drain (completions alice_and_bob) []) \<le> num_workers"
    "streamers alice_and_bob = Some [str ''alice'', str ''bob'']"
    "cycle_token alice_and_bob = Some (str ''token'')"
    by (simp_all add: alice_and_bob_def)
  have k: "tracked (schedule latin1_only ffmpeg_missing (str ''data'') alice_and_bob [] alice) =
     [Some TypeError, None]"
    by (rule alice_and_bob_futures)
  note inst = poll_failures_in_loop_and_scheduler [where st = alice
      and ws = "[offline_world, online_world, busy_world]" and ucd = latin1_only
      and rp = alice_recorded and pp = alice_processed and w = untitled_world
      and e = TypeError and c = alice_and_bob and fs = "[]"
      and f = "[str ''alice'', str ''bob'']" and token = "str ''token''"
      and prev = ffmpeg_missing and root = "str ''data''" and disk = alice]
  from inst h r have 1: "fst (loop_check latin1_only [offline_world, online_world, busy_world]
      alice_recorded alice_processed alice) = None \<and>
   lock_attempts (new_events alice
     (snd (loop_check latin1_only [offline_world, online_world, busy_world] alice_recorded
        alice_processed alice))) = length [offline_world, online_world, busy_world]"
    by simp
  from poll_failures_in_loop_and_scheduler [where st = alice and ws = "[offline_world]"
      and ucd = latin1_only and rp = alice_recorded and pp = alice_processed
      and w = untitled_world and e = TypeError] t
  have 2: "loop_check latin1_only [untitled_world, offline_world] alice_recorded
      alice_processed alice =
     check latin1_only untitled_world alice_recorded alice_processed alice"
    by blast
  from inst d have 3: "\<exists>new_futures st'.
      schedule latin1_only ffmpeg_missing (str ''data'') alice_and_bob [] alice =
        Scheduling (drain (completions alice_and_bob) [] @ new_futures) st' \<and>
      length new_futures = length (twitch_usernames [str ''alice'', str ''bob''])"
    by blast
  from h r(1,2) t d k 1 2 3 show ?thesis by blast
qed

text \<open>
  C4 as stated fails: a live stream whose first entry has no title makes the
  concatenation of the file name raise \<^verbatim>\<open>TypeError\<close>; the loop ends with it after its first
  check, and the world that follows is never polled.
\<close>

theorem malformed_title_ends_loop_counterexample:
  "fst (loop_check latin1_only [untitled_world, offline_world] alice_recorded alice_processed
      alice) = Some TypeError \<and>
   new_events alice (snd (loop_check latin1_only [untitled_world, offline_world] alice_recorded
      alice_processed alice)) =
     [Lock_Acquire (str ''data/recorded/alice.lock''), Poll,
      Log INFO ''%s online, stream recording in session'',
      Lock_Release (str ''data/recorded/alice.lock'')]"
  by code_simp

subsection \<open>The offline cycle\<close>

text \<open>
  C7 at two offline polls of "alice", poll interval 15. No recording is created (the
  one file the cycle leaves on disk is the lock file), but the
  interval is slept twice between the two polls, once in the \<open>OFFLINE\<close> branch of
  \<^verbatim>\<open>check\<close> under the lock and once more in \<^verbatim>\<open>loop_check\<close>: the next check comes 30
  seconds after the poll, not the 15 that the specification and the branch's own log
  line ("checking again in %s seconds") announce.
\<close>

theorem offline_cycle_sleeps_twice:
  "check_user (http offline_world) = Inr (OFFLINE, Object (Some [])) \<and>
   refresh (self alice) = 15 \<and>
   loop_check latin1_only [offline_world, offline_world] alice_recorded alice_processed alice =
     (None, alice\<lparr>files := [(str ''data/recorded/alice.lock'', [])], trace :=
       [Lock_Acquire (str ''data/recorded/alice.lock''), Poll,
        Log INFO ''%s currently offline, checking again in %s seconds'', Sleep 15,
        Lock_Release (str ''data/recorded/alice.lock''), Sleep 15,
        Lock_Acquire (str ''data/recorded/alice.lock''), Poll,
        Log INFO ''%s currently offline, checking again in %s seconds'', Sleep 15,
        Lock_Release (str ''data/recorded/alice.lock''), Sleep 15]\<rparr>)"
  by code_simp

subsection \<open>The minimum interval\<close>

lemma loop_check_settings:
  "refresh (self (snd (loop_check ucd ws rp pp st))) = refresh (self st) \<and>
   logger (self (snd (loop_check ucd ws rp pp st))) = logger (self st)"
proof (induction ws arbitrary: st)
  case Nil
  then show ?case by simp
next
  case (Cons w ws)
  obtain raised s1 where c: "check ucd w rp pp st = (raised, s1)"
    by (cases "check ucd w rp pp st")
  from check_settings [of ucd w rp pp st] c
  have s1: "refresh (self s1) = refresh (self st)" "logger (self s1) = logger (self st)"
    by simp_all
  show ?case
  proof (cases raised)
    case (Some e)
    with c s1 show ?thesis by simp
  next
    case None
    show ?thesis
    proof (cases "0 \<le> refresh (self s1) \<and> refresh (self s1) \<le> max_sleep w")
      case False
      with c None s1 show ?thesis by (auto simp: sleep_def)
    next
      case True
      with c None s1 Cons.IH [of "emit (Sleep (refresh (self s1))) s1"] show ?thesis
        by (simp add: sleep_def emit_def)
    qed
  qed
qed

lemma loop_check_spaced:
  assumes "g \<le> refresh (self st)" and "rested g since" and "0 \<le> g"
  shows "\<exists>es. trace (snd (loop_check ucd ws rp pp st)) = trace st @ es \<and> spaced g since es"
  using assms
proof (induction ws arbitrary: st since)
  case Nil
  then show ?case by simp
next
  case (Cons w ws)
  obtain raised s1 where c: "check ucd w rp pp st = (raised, s1)"
    by (cases "check ucd w rp pp st")
  from check_events [of ucd w rp pp st g] c obtain es1 where
    es1: "trace s1 = trace st @ es1" "spaced g since es1"
      "(\<exists>s'. since_after since es1 = Some s' \<and> 0 \<le> s') \<or> rested g (since_after since es1)"
    using Cons.prems(2) by auto
  from check_settings [of ucd w rp pp st] c
  have r1: "refresh (self s1) = refresh (self st)" by simp
  show ?case
  proof (cases raised)
    case (Some e)
    with c es1 show ?thesis by simp
  next
    case None
    let ?r = "refresh (self s1)"
    let ?s2 = "emit (Sleep ?r) s1"
    have r: "g \<le> ?r" "0 \<le> ?r" using r1 Cons.prems by simp_all
    show ?thesis
    proof (cases "?r \<le> max_sleep w")
      case False
      then have "loop_check ucd (w # ws) rp pp st = (Some OverflowError, s1)"
        using c None r by (simp add: sleep_def)
      with es1 show ?thesis by simp
    next
      case True
    have rest2: "rested g (since_after since (es1 @ [Sleep ?r]))"
      using es1(3) r by (cases "since_after since es1") (auto simp: since_after_append rested_def)
    have "g \<le> refresh (self ?s2)" using r by (simp add: emit_def)
    from Cons.IH [OF this rest2 Cons.prems(3)] obtain es2 where
      es2: "trace (snd (loop_check ucd ws rp pp ?s2)) = trace ?s2 @ es2"
        "spaced g (since_after since (es1 @ [Sleep ?r])) es2"
      by blast
    have eq: "loop_check ucd (w # ws) rp pp st = loop_check ucd ws rp pp ?s2"
      using c None r True by (simp add: sleep_def)
    have "trace (snd (loop_check ucd (w # ws) rp pp st)) = trace st @ (es1 @ [Sleep ?r]) @ es2"
      using eq es2(1) es1(1) by (simp add: emit_def)
    moreover have "spaced g since ((es1 @ [Sleep ?r]) @ es2)"
      using es1(2) es2(2) by (simp add: spaced_append since_after_append)
    ultimately show ?thesis by blast
    qed
  qed
qed

lemma enforce_min_refresh_cases:
  "(enforce_min_refresh st = (Some AttributeError, st) \<and> refresh (self st) < 15) \<or>
   (\<exists>s es. enforce_min_refresh st = (None, s) \<and> trace s = trace st @ es \<and> list_all quiet es \<and>
      refresh (self s) = max 15 (refresh (self st)) \<and> logger (self s) = logger (self st))"
  by (auto simp: enforce_min_refresh_def self_logger_def and_then_def emit_def)

lemma polling_spaced:
  assumes "15 \<le> refresh (self s)"
  shows "\<exists>es. trace (snd (if once then
                and_then (self_logger DEBUG ''checking for %s, recording with %s quality'' s)
                  (\<lambda>st. case ws of
                           [] \<Rightarrow> (None, st)
                         | w # _ \<Rightarrow> check ucd w rp pp st)
              else
                loop_check ucd ws rp pp
                  (logging INFO
                     ''checking for %s every %s seconds, recording with %s quality'' s))) =
           trace s @ es \<and> spaced 15 None es"
    (is "\<exists>es. trace (snd ?tail) = _ @ es \<and> _")
proof (cases once)
  case False
  let ?s1 = "logging INFO ''checking for %s every %s seconds, recording with %s quality'' s"
  have "15 \<le> refresh (self ?s1)" using assms by (simp add: logging_def emit_def)
  from loop_check_spaced [OF this, of None ucd ws rp pp] obtain es where
    "trace (snd (loop_check ucd ws rp pp ?s1)) = trace ?s1 @ es" "spaced 15 None es"
    by (auto simp: rested_def)
  with False show ?thesis by (simp add: logging_def emit_def)
next
  case True
  show ?thesis
  proof (cases "logger (self s)")
    case False
    with True show ?thesis by (simp add: self_logger_def and_then_def)
  next
    case lg: True
    let ?s1 = "emit (Log DEBUG ''checking for %s, recording with %s quality'') s"
    show ?thesis
    proof (cases ws)
      case Nil
      with True lg show ?thesis by (simp add: self_logger_def and_then_def emit_def)
    next
      case (Cons w ws')
      from check_events [of ucd w rp pp ?s1 15] obtain es where
        es: "trace (snd (check ucd w rp pp ?s1)) = trace ?s1 @ es" "spaced 15 None es"
        by (auto simp: rested_def)
      have "?tail = check ucd w rp pp ?s1"
        using True lg Cons by (simp add: self_logger_def and_then_def)
      with es show ?thesis by (simp add: emit_def)
    qed
  qed
qed

lemma polling_refresh:
  "refresh (self (snd (if once then
                and_then (self_logger DEBUG ''checking for %s, recording with %s quality'' s)
                  (\<lambda>st. case ws of
                           [] \<Rightarrow> (None, st)
                         | w # _ \<Rightarrow> check ucd w rp pp st)
              else
                loop_check ucd ws rp pp
                  (logging INFO
                     ''checking for %s every %s seconds, recording with %s quality'' s)))) =
   refresh (self s)"
  by (auto simp: loop_check_settings check_settings self_logger_def and_then_def logging_def
      emit_def split: list.splits)

lemma run_shape:
  "\<exists>es. trace (snd (run ucd prev ws once st)) = trace st @ es \<and> spaced 15 None es \<and>
      (Poll \<in> set es \<longrightarrow>
         refresh (self (snd (run ucd prev ws once st))) = max 15 (refresh (self st)))"
proof -
  define rp where "rp = path_join (path_join (root_path (self st)) (str ''recorded''))
                            (username (self st))"
  define pp where "pp = path_join (path_join (root_path (self st)) (str ''processed''))
                            (username (self st))"
  define s2 where "s2 = makedirs_if_missing pp (makedirs_if_missing rp st)"
  define tail where "tail = (\<lambda>s. if once then
                and_then (self_logger DEBUG ''checking for %s, recording with %s quality'' s)
                  (\<lambda>st. case ws of
                           [] \<Rightarrow> (None, st)
                         | w # _ \<Rightarrow> check ucd w rp pp st)
              else
                loop_check ucd ws rp pp
                  (logging INFO
                     ''checking for %s every %s seconds, recording with %s quality'' s))"
  have run_eq: "run ucd prev ws once st =
      and_then (enforce_min_refresh s2) (\<lambda>s. tail (fix_previous prev rp pp s))"
    unfolding run_def rp_def pp_def s2_def tail_def Let_def by (rule refl)
  have "advances st s2"
    unfolding s2_def by (auto intro!: adv)
  then obtain es2 where es2: "trace s2 = trace st @ es2" "list_all quiet es2"
    and r2: "refresh (self s2) = refresh (self st)"
    by (auto simp: advances_def)
  from enforce_min_refresh_cases [of s2] show ?thesis
  proof (elim disjE exE conjE)
    assume "enforce_min_refresh s2 = (Some AttributeError, s2)"
    then have "run ucd prev ws once st = (Some AttributeError, s2)"
      by (simp add: run_eq and_then_def)
    moreover have "Poll \<notin> set es2"
      using es2(2) by (auto simp: list_all_iff)
    ultimately show ?thesis
      using es2 by (auto simp: quiet_spaced)
  next
    fix s3 es3
    assume e: "enforce_min_refresh s2 = (None, s3)" and t3: "trace s3 = trace s2 @ es3"
      and q3: "list_all quiet es3" and r3: "refresh (self s3) = max 15 (refresh (self s2))"
    define s4 where "s4 = fix_previous prev rp pp s3"
    have "advances s3 s4" unfolding s4_def by (auto intro!: adv)
    then obtain es4 where es4: "trace s4 = trace s3 @ es4" "list_all quiet es4"
      and r4: "refresh (self s4) = refresh (self s3)"
      by (auto simp: advances_def)
    have ge: "15 \<le> refresh (self s4)" using r4 r3 by simp
    from polling_spaced [OF ge, where once = once and ws = ws and ucd = ucd and rp = rp and pp = pp] obtain es where
      es: "trace (snd (tail s4)) = trace s4 @ es" "spaced 15 None es"
      unfolding tail_def by blast
    have rf: "refresh (self (snd (tail s4))) = refresh (self s4)"
      unfolding tail_def by (rule polling_refresh)
    have run4: "run ucd prev ws once st = tail s4"
      using e by (simp add: run_eq and_then_def s4_def)
    define pre where "pre = es2 @ es3 @ es4"
    have pre: "list_all quiet pre" using es2(2) q3 es4(2) by (simp add: pre_def)
    have "trace (snd (run ucd prev ws once st)) = trace st @ (pre @ es)"
      using run4 es(1) es4(1) t3 es2(1) by (simp add: pre_def)
    moreover have "spaced 15 None (pre @ es)"
      using es(2) quiet_spaced [OF pre, of 15 None] quiet_since_None [OF pre]
      by (simp add: spaced_append)
    moreover have "refresh (self (snd (run ucd prev ws once st))) = max 15 (refresh (self st))"
      using run4 rf r4 r3 r2 by simp
    ultimately show ?thesis by blast
  qed
qed

text \<open>
  C9. Among the events of a run, with one check or looping, every poll after the first
  comes after at least 15 seconds of sleep since the poll before; and if the run polls at
  all, the interval it polls with is the configured one raised to 15 when it was below.
  (A recorder without a logger and with an interval below 15 raises on the warning, before
  any poll.)
\<close>

theorem run_min_interval:
  "spaced 15 None (new_events st (snd (run ucd prev ws once st))) \<and>
   (Poll \<in> set (new_events st (snd (run ucd prev ws once st))) \<longrightarrow>
      refresh (self (snd (run ucd prev ws once st))) = max 15 (refresh (self st)))"
proof -
  from run_shape [of ucd prev ws once st] obtain es where
    "trace (snd (run ucd prev ws once st)) = trace st @ es" "spaced 15 None es"
    "Poll \<in> set es \<longrightarrow>
         refresh (self (snd (run ucd prev ws once st))) = max 15 (refresh (self st))"
    by blast
  then show ?thesis by (simp add: new_events_def)
qed

text \<open>The theorem at a recorder configured with 5 seconds: it polls, with interval 15.\<close>

theorem run_min_interval_witness:
  "Poll \<in> set (new_events hasty (snd (run latin1_only ffmpeg_missing [offline_world] True hasty))) \<and>
   refresh (self hasty) = 5 \<and>
   refresh (self (snd (run latin1_only ffmpeg_missing [offline_world] True hasty))) = 15"
proof -
  have p: "Poll \<in> set (new_events hasty
      (snd (run latin1_only ffmpeg_missing [offline_world] True hasty)))"
    by code_simp
  have r: "refresh (self hasty) = 5"
    by (simp add: hasty_def)
  from run_min_interval [of hasty latin1_only ffmpeg_missing "[offline_world]" True] p r
  show ?thesis by simp
qed

subsection \<open>Admission control\<close>

lemma drain_short: "length fs \<le> num_workers \<Longrightarrow> drain seen fs = fs"
  by (cases seen) simp_all

lemma schedule_admission:
  assumes "schedule ucd prev root c fs st = Scheduling fs' st'"
  shows "length (drain (completions c) fs) \<le> num_workers \<and>
     (\<exists>f. streamers c = Some f \<and>
        length fs' = length (drain (completions c) fs) + length (twitch_usernames f))"
proof -
  from assms have le: "length (drain (completions c) fs) \<le> num_workers"
    by (auto simp: schedule_def Let_def split: if_splits)
  from assms le obtain f token where ft: "streamers c = Some f" "cycle_token c = Some token"
    by (auto simp: schedule_def Let_def split: option.splits)
  from schedule_submits_batch [OF le ft, of ucd prev root st] assms
  have "length fs' = length (drain (completions c) fs) + length (twitch_usernames f)"
    by auto
  with le ft show ?thesis by blast
qed

lemma main_loop_last:
  "main_loop ucd prev root (cycles @ [c]) fs st = Scheduling fs' st' \<Longrightarrow>
   \<exists>fs0 st0. schedule ucd prev root c fs0 st0 = Scheduling fs' st'"
proof (induction cycles arbitrary: fs st)
  case Nil
  then show ?case by (auto split: scheduler.splits)
next
  case (Cons c0 cycles)
  then show ?case by (auto split: scheduler.splits)
qed

text \<open>
  C8, as the code has it. A batch is submitted only once the list of futures the
  scheduler keeps (the units submitted and not yet taken off the list) has been drained to
  at most \<^verbatim>\<open>num_workers\<close> entries, and the batch adds one future per channel: after any
  number of passes the list holds at most \<^verbatim>\<open>num_workers\<close> entries and one batch. How
  many of the units run at the same time is the thread pool's affair and is not part of
  the statement.
\<close>

theorem admission_before_each_batch:
  "(schedule ucd prev root c fs st = Scheduling fs' st' \<longrightarrow>
      length (drain (completions c) fs) \<le> num_workers \<and>
      (\<exists>f. streamers c = Some f \<and>
         length fs' = length (drain (completions c) fs) + length (twitch_usernames f))) \<and>
   (main_loop ucd prev root (cycles @ [c]) fs st = Scheduling fs' st' \<longrightarrow>
      (\<exists>f. streamers c = Some f \<and> length fs' \<le> num_workers + length (twitch_usernames f)))"
proof (rule conjI)
  show "schedule ucd prev root c fs st = Scheduling fs' st' \<longrightarrow>
      length (drain (completions c) fs) \<le> num_workers \<and>
      (\<exists>f. streamers c = Some f \<and>
         length fs' = length (drain (completions c) fs) + length (twitch_usernames f))"
    using schedule_admission [of ucd prev root c fs st fs' st'] by blast
next
  show "main_loop ucd prev root (cycles @ [c]) fs st = Scheduling fs' st' \<longrightarrow>
      (\<exists>f. streamers c = Some f \<and> length fs' \<le> num_workers + length (twitch_usernames f))"
  proof
    assume "main_loop ucd prev root (cycles @ [c]) fs st = Scheduling fs' st'"
    from main_loop_last [OF this] obtain fs0 st0 where
      "schedule ucd prev root c fs0 st0 = Scheduling fs' st'" by blast
    from schedule_admission [OF this]
    show "\<exists>f. streamers c = Some f \<and> length fs' \<le> num_workers + length (twitch_usernames f)"
      by auto
  qed
qed

text \<open>
  The theorem at a pass over two channels that finds six futures in the list: two
  completions bring the list down to four, and the batch brings it back to six.
\<close>

theorem admission_before_each_batch_witness:
  "schedule latin1_only ffmpeg_missing (str ''data'') draining_pass six_futures alice =
     Scheduling
       (tracked (schedule latin1_only ffmpeg_missing (str ''data'') draining_pass six_futures
          alice))
       (state_of (schedule latin1_only ffmpeg_missing (str ''data'') draining_pass six_futures
          alice)) \<and>
   main_loop latin1_only ffmpeg_missing (str ''data'') ([] @ [draining_pass]) six_futures alice =
     Scheduling
       (tracked (schedule latin1_only ffmpeg_missing (str ''data'') draining_pass six_futures
          alice))
       (state_of (schedule latin1_only ffmpeg_missing (str ''data'') draining_pass six_futures
          alice)) \<and>
   length (drain (completions draining_pass) six_futures) = 4 \<and>
   length (tracked (schedule latin1_only ffmpeg_missing (str ''data'') draining_pass six_futures
     alice)) = 6 \<and>
   length (drain (completions draining_pass) six_futures) \<le> num_workers \<and>
   (\<exists>f. streamers draining_pass = Some f \<and>
      length (tracked (schedule latin1_only ffmpeg_missing (str ''data'') draining_pass
        six_futures alice)) =
      length (drain (completions draining_pass) six_futures) + length (twitch_usernames f)) \<and>
   (\<exists>f. streamers draining_pass = Some f \<and>
      length (tracked (schedule latin1_only ffmpeg_missing (str ''data'') draining_pass
        six_futures alice)) \<le> num_workers + length (twitch_usernames f))"
proof -
  let ?X = "schedule latin1_only ffmpeg_missing (str ''data'') draining_pass six_futures alice"
  have d4: "length (drain (completions draining_pass) six_futures) = 4"
    by (simp add: draining_pass_def six_futures_def num_workers_def)
  then have d: "length (drain (completions draining_pass) six_futures) \<le> num_workers"
    by (simp add: num_workers_def)
  have f: "streamers draining_pass = Some [str ''alice'', str ''bob'']"
    and k: "cycle_token draining_pass = Some (str ''token'')"
    by (simp_all add: draining_pass_def alice_and_bob_def)
  from schedule_submits_batch [OF d f k, of latin1_only ffmpeg_missing "str ''data''" alice]
  obtain new_futures st' where
    x: "?X = Scheduling (drain (completions draining_pass) six_futures @ new_futures) st'"
    and n: "length new_futures = length (twitch_usernames [str ''alice'', str ''bob''])"
    by blast
  have two: "length (twitch_usernames [str ''alice'', str ''bob'']) = 2"
    by (simp add: twitch_usernames_def rstrip_def isspace_def str_def)
  from x have 1: "?X = Scheduling (tracked ?X) (state_of ?X)" by simp
  from x have 2: "main_loop latin1_only ffmpeg_missing (str ''data'') ([] @ [draining_pass])
      six_futures alice = Scheduling (tracked ?X) (state_of ?X)"
    by simp
  from x n two d4 have 6: "length (tracked ?X) = 6" by simp
  from admission_before_each_batch [where ucd = latin1_only and prev = ffmpeg_missing
      and root = "str ''data''" and c = draining_pass and fs = six_futures and st = alice
      and fs' = "tracked ?X" and st' = "state_of ?X" and cycles = "[]"] 1 2
  have 3: "length (drain (completions draining_pass) six_futures) \<le> num_workers \<and>
   (\<exists>f. streamers draining_pass = Some f \<and>
      length (tracked ?X) =
      length (drain (completions draining_pass) six_futures) + length (twitch_usernames f)) \<and>
   (\<exists>f. streamers draining_pass = Some f \<and>
      length (tracked ?X) \<le> num_workers + length (twitch_usernames f))"
    by blast
  from 1 2 d4 6 3 show ?thesis by blast
qed

lemma five_names:
  "twitch_usernames [str ''anna'', str ''bert'', str ''cleo'', str ''dave'', str ''emma''] =
     [str ''anna'', str ''bert'', str ''cleo'', str ''dave'', str ''emma'']"
  by (simp add: twitch_usernames_def rstrip_def isspace_def str_def)

text \<open>
  C8 as stated fails for the units the scheduler has in flight: from an empty list, a
  pass over five channels submits five units at once, one more than the cap of four.
\<close>

theorem tracked_units_exceed_cap_counterexample:
  "num_workers = 4 \<and>
   length (tracked (schedule latin1_only ffmpeg_missing (str ''data'') five_channels [] alice)) = 5"
proof -
  have "length (drain (completions five_channels) ([] :: future list)) \<le> num_workers"
    and "streamers five_channels =
      Some [str ''anna'', str ''bert'', str ''cleo'', str ''dave'', str ''emma'']"
    and "cycle_token five_channels = Some (str ''token'')"
    by (simp_all add: five_channels_def)
  from schedule_submits_batch [OF this, of latin1_only ffmpeg_missing "str ''data''" alice]
  show ?thesis
    by (auto simp: five_names num_workers_def five_channels_def)
qed

end
